theory Spec2Isabelle
  imports Main "HOL-Library.Word"
begin

unbundle bit_operations_syntax

section \<open>Machine types\<close>

type_synonym u8 = "8 word"
type_synonym u16 = "16 word"
type_synonym u32 = "32 word"
type_synonym u64 = "64 word"

text \<open>A block is the payload of one 512-byte logical sector.\<close>

type_synonym block = "u8 list"

section \<open>The ATA block device driver (ata2.c)\<close>

definition BLOCK_SIZE :: nat where
  "BLOCK_SIZE = 512"

definition BLOCKS_PER_MB :: nat where
  "BLOCKS_PER_MB = 2048"

definition CACHE_NUMBLOCKS :: nat where
  "CACHE_NUMBLOCKS = 16"

text \<open>Register numbers and command bytes of ata2\_definitions.h.\<close>

definition REG_FEATURES :: nat where "REG_FEATURES = 0x1"
definition REG_SECCOUNT_LOW :: nat where "REG_SECCOUNT_LOW = 0x2"
definition REG_LBA0 :: nat where "REG_LBA0 = 0x3"
definition REG_LBA1 :: nat where "REG_LBA1 = 0x4"
definition REG_LBA2 :: nat where "REG_LBA2 = 0x5"
definition REG_DEVICEHEAD :: nat where "REG_DEVICEHEAD = 0x6"
definition REG_COMMAND :: nat where "REG_COMMAND = 0x7"
definition REG_CONTROL :: nat where "REG_CONTROL = 0x8"
definition REG_SECCOUNT_HIGH :: nat where "REG_SECCOUNT_HIGH = 0xA"
definition REG_LBA3 :: nat where "REG_LBA3 = 0xB"
definition REG_LBA4 :: nat where "REG_LBA4 = 0xC"
definition REG_LBA5 :: nat where "REG_LBA5 = 0xD"

definition CONTROL_NIEN :: u8 where "CONTROL_NIEN = 0x02"
definition DEVICE_0 :: u8 where "DEVICE_0 = 0x00"
definition LBA_ADDRESSING :: u8 where "LBA_ADDRESSING = 0x40"
definition COMMAND_READ_SECTORS :: u8 where "COMMAND_READ_SECTORS = 0x20"
definition COMMAND_READ_SECTORS_EXT :: u8 where "COMMAND_READ_SECTORS_EXT = 0x24"

text \<open>
  One read command as \<open>ata_send_read_command\<close> hands it to the controller: its two
  arguments and the register writes (\<open>pio_outbyte\<close>) it performs, in order.
\<close>

record read_command =
  rc_lba :: u32
  rc_count :: u16
  rc_regs :: "(nat \<times> u8) list"

text \<open>
  The driver's globals. \<open>cachedata\<close> is kept as its \<open>CACHE_NUMBLOCKS\<close> blocks;
  \<open>dev_lba48\<close> and \<open>dev_alignment_log2\<close> are the fields of \<open>ATAdev\<close> the read path
  uses. Two components stand for the world outside the driver: \<open>medium\<close> is what the
  device delivers for a logical block (\<open>None\<close>: the transfer ends with the error flag
  set or with fewer bytes than asked), and \<open>issued\<close> records every read command
  sent, oldest first.
\<close>

record ata_state =
  cachedata :: "block list"
  cacheaddr :: "u32 list"
  cachetick :: "u32 list"
  cacheticks :: u32
  last_command :: u8
  last_sector :: u32
  last_sector_count :: u16
  dev_lba48 :: u8
  dev_alignment_log2 :: u8
  medium :: "u32 \<Rightarrow> block option"
  issued :: "read_command list"

text \<open>
  The fatal conditions of the driver. \<open>mlc_show_fatal_error\<close> halts the loader, so
  a fatal outcome of the read path carries the state at the halt and nothing runs after
  it.
\<close>

datatype fatal = Out_of_bounds_read | ATA_IO_error | Invalid_cache_index | Identify_checksum_mismatch

type_synonym 'a outcome = "(fatal \<times> ata_state) + 'a"

definition final_state :: "(ata_state \<times> 'a) outcome \<Rightarrow> ata_state" where
  "final_state r = (case r of Inl (e, st) \<Rightarrow> st | Inr (st, x) \<Rightarrow> st)"

subsection \<open>The block cache\<close>

text \<open>\<open>clear_cache\<close>: every tick zero, every slot the invalid sector number \<open>~0\<close>.\<close>

definition clear_cache :: "ata_state \<Rightarrow> ata_state" where
  "clear_cache st =
     st\<lparr>cacheticks := 0,
        cachetick := replicate CACHE_NUMBLOCKS 0,
        cacheaddr := replicate CACHE_NUMBLOCKS (NOT 0)\<rparr>"

text \<open>
  The scan of \<open>find_cache_entry\<close>: \<open>for (i = 0; i < CACHE_NUMBLOCKS; i++)\<close>, stopping at
  the first slot that holds the sector. The last argument counts the iterations left.
\<close>

fun find_cache_scan :: "u32 list \<Rightarrow> u32 \<Rightarrow> nat \<Rightarrow> nat \<Rightarrow> nat option" where
  "find_cache_scan addr sector i 0 = None"
| "find_cache_scan addr sector i (Suc n) =
     (if addr ! i = sector then Some i else find_cache_scan addr sector (Suc i) n)"

text \<open>
  \<open>find_cache_entry\<close> returns the slot index, or \<open>-1\<close>. A hit pre-increments
  \<open>cacheticks\<close> and stores it as the slot's tick.
\<close>

definition find_cache_entry :: "ata_state \<Rightarrow> u32 \<Rightarrow> int \<times> ata_state" where
  "find_cache_entry st sector =
     (if sector = NOT 0 then (- 1, st)
      else case find_cache_scan (cacheaddr st) sector 0 CACHE_NUMBLOCKS of
             Some i \<Rightarrow>
               (int i, st\<lparr>cacheticks := cacheticks st + 1,
                          cachetick := (cachetick st)[i := cacheticks st + 1]\<rparr>)
           | None \<Rightarrow> (- 1, st))"

text \<open>
  The eviction scan of \<open>create_cache_entry\<close>: \<open>cacheindex\<close> starts at 0 and moves to
  \<open>i\<close> whenever slot \<open>i\<close> has a strictly lower tick.
\<close>

fun lru_scan :: "u32 list \<Rightarrow> nat \<Rightarrow> nat \<Rightarrow> nat \<Rightarrow> nat" where
  "lru_scan tick cacheindex i 0 = cacheindex"
| "lru_scan tick cacheindex i (Suc n) =
     (if tick ! i < tick ! cacheindex then lru_scan tick i (Suc i) n
      else lru_scan tick cacheindex (Suc i) n)"

definition create_cache_entry :: "ata_state \<Rightarrow> u32 \<Rightarrow> int \<times> ata_state" where
  "create_cache_entry st sector =
     (let (found, st1) = find_cache_entry st sector;
          cacheindex =
            (if found < 0 then int (lru_scan (cachetick st1) 0 0 CACHE_NUMBLOCKS) else found)
      in (cacheindex,
          st1\<lparr>cacheaddr := (cacheaddr st1)[nat cacheindex := sector],
              cachetick := (cachetick st1)[nat cacheindex := cacheticks st1]\<rparr>))"

text \<open>
  \<open>get_cache_entry_buffer\<close> yields the slot's buffer (here: its index into
  \<open>cachedata\<close>) for an index in range; any other index is fatal.
\<close>

definition get_cache_entry_buffer :: "int \<Rightarrow> nat option" where
  "get_cache_entry_buffer cacheindex =
     (if 0 \<le> cacheindex \<and> cacheindex < int CACHE_NUMBLOCKS then Some (nat cacheindex)
      else None)"

subsection \<open>Sending a read command and receiving its data\<close>

definition ata_send_read_command :: "ata_state \<Rightarrow> u32 \<Rightarrow> u16 \<Rightarrow> ata_state" where
  "ata_send_read_command st lba count =
     (let head = (if dev_lba48 st \<noteq> 0 then 0
                  else (ucast (drop_bit 24 (lba AND 0x0F000000)) :: u8));
          setup =
            [(REG_DEVICEHEAD, 0xA0 OR LBA_ADDRESSING OR DEVICE_0 OR head),
             (REG_FEATURES, 0),
             (REG_CONTROL, CONTROL_NIEN OR 0x08)];
          high =
            (if dev_lba48 st \<noteq> 0 then
               [(REG_SECCOUNT_HIGH, ucast (drop_bit 8 (count AND 0xFF00))),
                (REG_LBA3, ucast (drop_bit 24 (lba AND 0xFF000000))),
                (REG_LBA4, 0),
                (REG_LBA5, 0)]
             else []);
          low =
            [(REG_SECCOUNT_LOW, ucast (count AND 0x00FF)),
             (REG_LBA0, ucast (lba AND 0x000000FF)),
             (REG_LBA1, ucast (drop_bit 8 (lba AND 0x0000FF00))),
             (REG_LBA2, ucast (drop_bit 16 (lba AND 0x00FF0000)))];
          cmd = (if dev_lba48 st \<noteq> 0 then COMMAND_READ_SECTORS_EXT
                 else COMMAND_READ_SECTORS)
      in st\<lparr>last_sector := lba,
            last_sector_count := count,
            last_command := cmd,
            issued := issued st @
              [\<lparr>rc_lba = lba, rc_count = count,
                rc_regs = setup @ high @ low @ [(REG_COMMAND, cmd)]\<rparr>]\<rparr>)"

text \<open>
  \<open>ata_receive_read_data(dst, 1)\<close> for the block of the running command whose logical
  address is \<open>lba\<close>: the 512 bytes, or the fatal I/O error of \<open>bug_on_ata_error\<close> and
  of the byte-count check.
\<close>

definition ata_receive_read_data :: "ata_state \<Rightarrow> u32 \<Rightarrow> block outcome" where
  "ata_receive_read_data st lba =
     (case medium st lba of None \<Rightarrow> Inl (ATA_IO_error, st) | Some data \<Rightarrow> Inr data)"

subsection \<open>Reading one block\<close>

lemma word32_succ_unat:
  fixes i :: u32
  assumes "i < bound"
  shows "unat (i + 1) = Suc (unat i)"
proof -
  have "unat i < unat bound"
    using assms by (simp add: word_less_nat_alt)
  moreover have "unat bound < 2 ^ 32"
    using unsigned_less [of bound, where ?'a = nat] by simp
  ultimately have "unat i + unat (1 :: u32) < 2 ^ LENGTH(32)"
    by simp
  then have "unat (i + 1) = unat i + unat (1 :: u32)"
    by (simp only: unat_add_lem)
  then show ?thesis
    by simp
qed

text \<open>
  The cached branch's loop, \<open>for (i = sector_to_read; i < sector_to_read + read_size; i++)\<close>:
  each block of the run gets a cache entry, is received into that entry's buffer, and is
  copied to \<open>dst\<close> when it is the requested sector.
\<close>

function cached_fill ::
  "ata_state \<Rightarrow> block \<Rightarrow> u32 \<Rightarrow> u32 \<Rightarrow> u32 \<Rightarrow> (ata_state \<times> block) outcome" where
  "cached_fill st dst sector i bound =
     (if i < bound then
        (case create_cache_entry st i of
           (cacheindex, st1) \<Rightarrow>
             (case get_cache_entry_buffer cacheindex of
                None \<Rightarrow> Inl (Invalid_cache_index, st1)
              | Some slot \<Rightarrow>
                  (case ata_receive_read_data st1 i of
                     Inl e \<Rightarrow> Inl e
                   | Inr data \<Rightarrow>
                       cached_fill (st1\<lparr>cachedata := (cachedata st1)[slot := data]\<rparr>)
                         (if i = sector then data else dst) sector (i + 1) bound)))
      else Inr (st, dst))"
  by pat_completeness auto
termination
  by (relation "measure (\<lambda>(st, dst, sector, i, bound). unat bound - unat i)")
     (auto simp: word32_succ_unat word_less_nat_alt)

text \<open>
  The uncached branch's loop: the requested block is received into \<open>dst\<close>, the others
  are received and discarded.
\<close>

function uncached_fill ::
  "ata_state \<Rightarrow> block \<Rightarrow> u32 \<Rightarrow> u32 \<Rightarrow> u32 \<Rightarrow> (ata_state \<times> block) outcome" where
  "uncached_fill st dst sector i bound =
     (if i < bound then
        (case ata_receive_read_data st i of
           Inl e \<Rightarrow> Inl e
         | Inr data \<Rightarrow> uncached_fill st (if i = sector then data else dst) sector (i + 1) bound)
      else Inr (st, dst))"
  by pat_completeness auto
termination
  by (relation "measure (\<lambda>(st, dst, sector, i, bound). unat bound - unat i)")
     (auto simp: word32_succ_unat word_less_nat_alt)

text \<open>
  \<open>ata_readblock2\<close>. \<open>dst\<close> is the caller's 512-byte buffer; the result carries its
  contents after the call. C defines \<open>1u << alignment_log2\<close> only below 32;
  \<open>push_bit\<close> gives 0 from 32 on, as the target's register shift does.
\<close>

definition ata_readblock2 ::
  "ata_state \<Rightarrow> block \<Rightarrow> u32 \<Rightarrow> bool \<Rightarrow> (ata_state \<times> block) outcome" where
  "ata_readblock2 st dst sector useCache =
     (case (if useCache then find_cache_entry st sector else (- 1, st)) of
        (cacheindex, st0) \<Rightarrow>
          if useCache \<and> 0 \<le> cacheindex then
            (case get_cache_entry_buffer cacheindex of
               None \<Rightarrow> Inl (Invalid_cache_index, st0)
             | Some slot \<Rightarrow> Inr (st0, cachedata st0 ! slot))
          else if dev_lba48 st0 = 0 \<and> 0x0FFFFFFF < sector then Inl (Out_of_bounds_read, st0)
          else
            (let read_size = (ucast (push_bit (unat (dev_alignment_log2 st0)) (1 :: u32)) :: u16);
                 sector_mask = NOT (push_bit (unat (dev_alignment_log2 st0)) (1 :: u32) - 1);
                 sector_to_read = sector AND sector_mask;
                 st1 = ata_send_read_command st0 sector_to_read read_size;
                 bound = sector_to_read + ucast read_size
             in if useCache then
                  (case cached_fill st1 dst sector sector_to_read bound of
                     Inl e \<Rightarrow> Inl e
                   | Inr (st2, dst') \<Rightarrow> Inr (st2\<lparr>cacheticks := cacheticks st2 + 1\<rparr>, dst'))
                else uncached_fill st1 dst sector sector_to_read bound))"

definition ata_readblock :: "ata_state \<Rightarrow> block \<Rightarrow> u32 \<Rightarrow> (ata_state \<times> block) outcome" where
  "ata_readblock st dst sector = ata_readblock2 st dst sector True"

text \<open>
  \<open>ata_readblocks\<close> and \<open>ata_readblocks_uncached\<close>: \<open>while (count-- > 0)\<close> one block at
  a time, the sector number incremented (and wrapping) as a \<open>uint32\<close>. The destination
  is the caller's buffer in 512-byte units; block \<open>j\<close> of it receives the \<open>j\<close>-th read.
\<close>

fun readblocks_loop ::
  "bool \<Rightarrow> ata_state \<Rightarrow> block list \<Rightarrow> nat \<Rightarrow> u32 \<Rightarrow> nat \<Rightarrow> (ata_state \<times> block list) outcome" where
  "readblocks_loop useCache st dst j sector 0 = Inr (st, dst)"
| "readblocks_loop useCache st dst j sector (Suc n) =
     (case ata_readblock2 st (dst ! j) sector useCache of
        Inl e \<Rightarrow> Inl e
      | Inr (st', b) \<Rightarrow> readblocks_loop useCache st' (dst[j := b]) (Suc j) (sector + 1) n)"

definition ata_readblocks ::
  "ata_state \<Rightarrow> block list \<Rightarrow> u32 \<Rightarrow> u32 \<Rightarrow> (ata_state \<times> block list) outcome" where
  "ata_readblocks st dst sector count = readblocks_loop True st dst 0 sector (unat count)"

definition ata_readblocks_uncached ::
  "ata_state \<Rightarrow> block list \<Rightarrow> u32 \<Rightarrow> u32 \<Rightarrow> (ata_state \<times> block list) outcome" where
  "ata_readblocks_uncached st dst sector count =
     readblocks_loop False st dst 0 sector (unat count)"

text \<open>
  The driver's state once \<open>ata_init\<close> has allocated and cleared the cache and
  \<open>ata_identify\<close> has set the addressing mode and the alignment.
\<close>

definition ata_boot_state :: "u8 \<Rightarrow> u8 \<Rightarrow> (u32 \<Rightarrow> block option) \<Rightarrow> ata_state" where
  "ata_boot_state lba48 k m =
     clear_cache
       \<lparr>cachedata = replicate CACHE_NUMBLOCKS [], cacheaddr = [], cachetick = [], cacheticks = 0,
        last_command = 0, last_sector = 0, last_sector_count = 0,
        dev_lba48 = lba48, dev_alignment_log2 = k, medium = m, issued = []\<rparr>"

text \<open>A read command whose start and length are multiples of \<open>2 ^ k\<close> blocks.\<close>

definition aligned_command :: "nat \<Rightarrow> read_command \<Rightarrow> bool" where
  "aligned_command k c = (2 ^ k dvd unat (rc_lba c) \<and> 2 ^ k dvd unat (rc_count c))"

text \<open>Two states with the same device configuration, medium and command trace.\<close>

definition same_device :: "ata_state \<Rightarrow> ata_state \<Rightarrow> bool" where
  "same_device st st' =
     (issued st' = issued st \<and> dev_lba48 st' = dev_lba48 st \<and>
      dev_alignment_log2 st' = dev_alignment_log2 st \<and> medium st' = medium st)"

text \<open>The three cache arrays have their \<open>CACHE_NUMBLOCKS\<close> entries, as \<open>ata_init\<close> allocates them.\<close>

definition cache_wf :: "ata_state \<Rightarrow> bool" where
  "cache_wf st =
     (length (cachedata st) = CACHE_NUMBLOCKS \<and> length (cacheaddr st) = CACHE_NUMBLOCKS \<and>
      length (cachetick st) = CACHE_NUMBLOCKS)"

text \<open>
  No two of the \<open>CACHE_NUMBLOCKS\<close> slots map to the same valid sector number (the mark
  \<open>~0\<close> of an invalid slot may repeat).
\<close>

definition addr_unique :: "u32 list \<Rightarrow> bool" where
  "addr_unique addr =
     (\<forall>i \<in> {0..<CACHE_NUMBLOCKS}. \<forall>j \<in> {0..<CACHE_NUMBLOCKS}.
        i \<noteq> j \<and> addr ! i = addr ! j \<longrightarrow> addr ! i = NOT 0)"

definition cache_unique :: "ata_state \<Rightarrow> bool" where
  "cache_unique st = addr_unique (cacheaddr st)"

text \<open>
  A sequence of cached reads, each into the caller's buffer; a fatal condition ends it.
\<close>

fun cached_reads :: "ata_state \<Rightarrow> block \<Rightarrow> u32 list \<Rightarrow> (ata_state \<times> block) outcome" where
  "cached_reads st dst [] = Inr (st, dst)"
| "cached_reads st dst (s # ss) =
     (case ata_readblock st dst s of
        Inl e \<Rightarrow> Inl e
      | Inr (st', d) \<Rightarrow> cached_reads st' d ss)"

text \<open>
  The slots whose tick is below a given value, counted; the slots older than the tick
  counter; no tick above the tick counter, as it is once the cache has been cleared and
  from then on.
\<close>

definition older_than :: "u32 \<Rightarrow> u32 list \<Rightarrow> nat" where
  "older_than t ticks = length (filter (\<lambda>x. x < t) ticks)"

definition older_slots :: "ata_state \<Rightarrow> nat" where
  "older_slots st = older_than (cacheticks st) (cachetick st)"

definition ticks_bounded :: "ata_state \<Rightarrow> bool" where
  "ticks_bounded st = list_all (\<lambda>x. x \<le> cacheticks st) (cachetick st)"

text \<open>
  A run of \<open>2 ^ alignment_log2\<close> blocks finds a slot older than the tick counter for each
  of its blocks, and the tick counter does not wrap around while it is stored. A run of
  one block asks for nothing.
\<close>

definition run_fits_cache :: "ata_state \<Rightarrow> bool" where
  "run_fits_cache st =
     (dev_alignment_log2 st = 0 \<or>
      (2 ^ unat (dev_alignment_log2 st) \<le> older_slots st \<and>
       unat (cacheticks st) + 2 ^ unat (dev_alignment_log2 st) < 2 ^ 32))"

subsection \<open>Device identification\<close>

text \<open>
  \<open>ata_identify\<close> works on the 256 words of the IDENTIFY DEVICE response. Its checksum
  loop adds the low and the high byte of every word into a \<open>uint8\<close>.
\<close>

fun identify_sum :: "u16 list \<Rightarrow> nat \<Rightarrow> nat \<Rightarrow> u8 \<Rightarrow> u8" where
  "identify_sum buff i 0 calculated_sum = calculated_sum"
| "identify_sum buff i (Suc n) calculated_sum =
     identify_sum buff (Suc i) n
       (calculated_sum + ucast (buff ! i AND 0x00FF) + ucast (drop_bit 8 (buff ! i)))"

text \<open>
  \<open>strncmp_be16\<close> compares a C string (its bytes, the terminating NUL included) with a
  string stored as big-endian 16-bit words. \<open>char\<close> is unsigned on the target; the
  callers only test the result against 0.
\<close>

fun strncmp_be16 :: "int \<Rightarrow> u8 list \<Rightarrow> nat \<Rightarrow> u16 list \<Rightarrow> nat \<Rightarrow> nat \<Rightarrow> int" where
  "strncmp_be16 result str1 str1_start str2 str2_start 0 = result"
| "strncmp_be16 result str1 str1_start str2 str2_start (Suc n) =
     (let lc = str1 ! str1_start;
          rc = (if odd str2_start then (ucast (str2 ! (str2_start div 2) AND 0xFF) :: u8)
                else ucast (drop_bit 8 (str2 ! (str2_start div 2))));
          result' = uint lc - uint rc
      in if result' \<noteq> 0 \<or> lc = 0 \<or> rc = 0 then result'
         else strncmp_be16 result' str1 (Suc str1_start) str2 (Suc str2_start) n)"

text \<open>The fields of \<open>ATAdev\<close>.\<close>

record ata_dev =
  ATAdev_chs :: "u16 list"
  ATAdev_lba48 :: u8
  ATAdev_alignment_log2 :: u8
  ATAdev_sectors :: u64

definition TOSHIBA_prefix :: "u8 list" where
  "TOSHIBA_prefix = [0x54, 0x4F, 0x53, 0x48, 0x49, 0x42, 0x41, 0x20, 0]"

definition GAH_family :: "u8 list" where
  "GAH_family = [0x31, 0x30, 0x47, 0x41, 0x48, 0]"

text \<open>
  \<open>ata_identify\<close> on the received response \<open>buff\<close>: the fatal checksum mismatch, or the
  drive configuration. The diagnostics it prints are left out.
\<close>

definition ata_identify :: "u16 list \<Rightarrow> fatal + ata_dev" where
  "ata_identify buff =
     (if buff ! 255 AND 0x00FF = 0xA5 \<and> identify_sum buff 0 256 0 \<noteq> 0
      then Inl Identify_checksum_mismatch
      else
        (let hdd_model = drop 27 buff;
             l48 = (if buff ! 83 AND push_bit 10 1 \<noteq> 0 then 1 else 0 :: u8);
             secs =
               (if l48 \<noteq> 0 then
                  push_bit 48 (ucast (buff ! 103) :: u64) OR push_bit 32 (ucast (buff ! 102))
                    OR push_bit 16 (ucast (buff ! 101)) OR ucast (buff ! 100)
                else push_bit 16 (ucast (buff ! 61) :: u64) OR ucast (buff ! 60));
             size_mb = secs div of_nat BLOCKS_PER_MB
         in Inr \<lparr>ATAdev_chs = [buff ! 1, buff ! 3, buff ! 6],
                 ATAdev_lba48 = l48,
                 ATAdev_alignment_log2 =
                   (if strncmp_be16 0 TOSHIBA_prefix 0 hdd_model 0 8 = 0 \<and>
                       strncmp_be16 0 GAH_family 0 hdd_model 12 5 = 0 then 1
                    else if 127 * 1024 < size_mb then 3
                    else 0),
                 ATAdev_sectors = secs\<rparr>))"

text \<open>
  The checksum rule in the specification's words: the sum of the 256 sixteen-bit words
  of the response must be zero.
\<close>

definition spec_word_sum :: "u16 list \<Rightarrow> u16" where
  "spec_word_sum buff = sum_list (take 256 buff)"

text \<open>The checksum rule of the code: the sum of all 512 bytes, modulo 256.\<close>

definition byte_sum :: "u16 list \<Rightarrow> nat" where
  "byte_sum buff =
     (\<Sum>i < 256. unat (buff ! i AND 0x00FF) + unat (drop_bit 8 (buff ! i)))"

section \<open>The FAT driver (fat32.c)\<close>

definition MAX_HANDLES :: nat where
  "MAX_HANDLES = 10"

text \<open>
  A file handle (\<open>fat32_file\<close> of fat32.h, which is not among the sources: its fields are
  the ones \<open>fat32_findfile\<close> sets, taken as \<open>uint32\<close> like the variables \<open>fat32_read\<close>
  computes with).
\<close>

record fat32_file =
  file_cluster :: u32
  file_opened :: u32
  file_position :: u32
  file_length :: u32

text \<open>
  The volume structure \<open>fat_t\<close>. A slot of \<open>filehandles\<close> is a pointer: \<open>None\<close> is the
  null pointer the structure is cleared to, \<open>Some f\<close> points to the handle \<open>f\<close>
  (every open allocates a fresh one, so no two slots share a handle).
\<close>

record fat_t =
  fat_offset :: u32
  sectors_per_fat :: u32
  root_dir_first_cluster :: u32
  data_area_offset :: u32
  bytes_per_cluster :: u32
  bytes_per_sector :: u16
  blks_per_sector :: u16
  blks_per_cluster :: u16
  number_of_reserved_sectors :: u16
  sectors_per_cluster :: u16
  entries_in_rootdir :: u16
  entries_per_sector :: u16
  number_of_fats :: u8
  bits_per_fat_entry :: u8
  filehandles :: "fat32_file option list"
  numHandles :: u32

text \<open>
  The handle a descriptor designates. Indexing \<open>filehandles\<close> outside its
  \<open>MAX_HANDLES\<close> slots, or through a null slot, is undefined in C: \<open>None\<close>.
\<close>

definition file_of :: "fat_t \<Rightarrow> int \<Rightarrow> fat32_file option" where
  "file_of fs fd =
     (if 0 \<le> fd \<and> fd < int MAX_HANDLES \<and> nat fd < length (filehandles fs)
      then filehandles fs ! nat fd else None)"

definition set_file :: "fat_t \<Rightarrow> int \<Rightarrow> fat32_file \<Rightarrow> fat_t" where
  "set_file fs fd f = fs\<lparr>filehandles := (filehandles fs)[nat fd := Some f]\<rparr>"

subsection \<open>Open, close, tell, seek\<close>

text \<open>
  \<open>fat32_open\<close>, with the result of its call of \<open>fat32_findfile\<close> given (\<open>None\<close>: the
  file was not found). It returns the descriptor, or \<open>-1\<close>.
\<close>

definition fat32_open :: "fat_t \<Rightarrow> fat32_file option \<Rightarrow> int \<times> fat_t" where
  "fat32_open fs found =
     (case found of
        None \<Rightarrow> (- 1, fs)
      | Some file \<Rightarrow>
          if numHandles fs < of_nat MAX_HANDLES then
            (sint (numHandles fs + 1 - 1),
             fs\<lparr>filehandles := (filehandles fs)[unat (numHandles fs) := Some file],
                numHandles := numHandles fs + 1\<rparr>)
          else (- 1, fs))"

text \<open>
  \<open>fat32_close\<close>: the comparison \<open>fd == fs->numHandles-1\<close> is made in \<open>uint32\<close>.
\<close>

definition fat32_close :: "fat_t \<Rightarrow> int \<Rightarrow> fat_t" where
  "fat32_close fs fd =
     (if (word_of_int fd :: u32) = numHandles fs - 1 then fs\<lparr>numHandles := numHandles fs - 1\<rparr>
      else fs)"

text \<open>\<open>fat32_tell\<close> returns the position as a \<open>long\<close>.\<close>

definition fat32_tell :: "fat_t \<Rightarrow> int \<Rightarrow> int option" where
  "fat32_tell fs fd = map_option (\<lambda>f. sint (file_position f)) (file_of fs fd)"

text \<open>
  The \<open>whence\<close> argument: the three constants of vfs.h (not among the sources), and
  any other value.
\<close>

datatype whence = VFS_SEEK_CUR | VFS_SEEK_SET | VFS_SEEK_END | VFS_SEEK_other

text \<open>
  \<open>fat32_seek\<close>. The offset is a \<open>long\<close>, 32 bits on the target, given by its bits;
  adding the \<open>uint32\<close> position or length wraps around, \<open>offset < 0\<close> reads the sum as
  signed and \<open>offset > length\<close> as unsigned. The result is the returned \<open>int\<close> and
  the volume structure; \<open>None\<close> only for a descriptor without a handle.
\<close>

definition seek_to :: "fat_t \<Rightarrow> int \<Rightarrow> fat32_file \<Rightarrow> u32 \<Rightarrow> int \<times> fat_t" where
  "seek_to fs fd f offset =
     (if sint offset < 0 \<or> file_length f < offset then (- 1, fs)
      else (0, set_file fs fd (f\<lparr>file_position := offset\<rparr>)))"

definition fat32_seek :: "fat_t \<Rightarrow> int \<Rightarrow> u32 \<Rightarrow> whence \<Rightarrow> (int \<times> fat_t) option" where
  "fat32_seek fs fd offset w =
     (case w of
        VFS_SEEK_other \<Rightarrow> Some (- 2, fs)
      | VFS_SEEK_CUR \<Rightarrow>
          map_option (\<lambda>f. seek_to fs fd f (offset + file_position f)) (file_of fs fd)
      | VFS_SEEK_SET \<Rightarrow> map_option (\<lambda>f. seek_to fs fd f offset) (file_of fs fd)
      | VFS_SEEK_END \<Rightarrow>
          map_option (\<lambda>f. seek_to fs fd f (offset + file_length f)) (file_of fs fd))"

text \<open>The volume structure after \<open>mlc_memset (&fat, 0, sizeof(fat))\<close>.\<close>

definition fat_cleared :: fat_t where
  "fat_cleared =
     \<lparr>fat_offset = 0, sectors_per_fat = 0, root_dir_first_cluster = 0, data_area_offset = 0,
      bytes_per_cluster = 0, bytes_per_sector = 0, blks_per_sector = 0, blks_per_cluster = 0,
      number_of_reserved_sectors = 0, sectors_per_cluster = 0, entries_in_rootdir = 0,
      entries_per_sector = 0, number_of_fats = 0, bits_per_fat_entry = 0,
      filehandles = replicate MAX_HANDLES None, numHandles = 0\<rparr>"

text \<open>
  Where a seek aims, as a number: the base the offset is relative to (start, current
  position or end), plus the signed offset.
\<close>

definition seek_base :: "fat32_file \<Rightarrow> whence \<Rightarrow> u32" where
  "seek_base f w =
     (case w of VFS_SEEK_CUR \<Rightarrow> file_position f | VFS_SEEK_END \<Rightarrow> file_length f | _ \<Rightarrow> 0)"

definition seek_target :: "fat32_file \<Rightarrow> u32 \<Rightarrow> whence \<Rightarrow> int" where
  "seek_target f offset w = uint (seek_base f w) + sint offset"

subsection \<open>Reading\<close>

text \<open>
  What halts the FAT driver: a fatal condition of the block device driver underneath, or
  one of its own. The conditions of \<open>fat32_newfs\<close> call \<open>mlc_show_critical_error\<close>
  and return without registering the file system.
\<close>

datatype fat_error =
  ATA_fatal fatal
  | Invalid_bits_per_fat_entry
  | Not_valid_FAT_superblock
  | Invalid_BPB_BytsPerSec
  | Invalid_BPB_SecPerClus
  | FAT12_not_supported

type_synonym 'a fat_outcome = "fat_error + 'a"

text \<open>
  The driver's globals: the volume structure \<open>fat\<close>, the cluster buffer and the cached
  FAT sector with its sector number, and the state of the block device driver. The two
  buffers are kept in 512-byte blocks, as \<open>ata_readblocks\<close> fills them.
\<close>

record fat_state =
  fat :: fat_t
  ata :: ata_state
  clusterBuffer :: "block list"
  gFATSectorBuf :: "block list"
  gSecNumInFATBuf :: u32

definition readToSectorBuf :: "fat_state \<Rightarrow> u32 \<Rightarrow> fat_state fat_outcome" where
  "readToSectorBuf st sector =
     (if gSecNumInFATBuf st \<noteq> sector then
        (case ata_readblocks (ata st) (gFATSectorBuf st)
                (sector * ucast (blks_per_sector (fat st))) (ucast (blks_per_sector (fat st))) of
           Inl (e, a) \<Rightarrow> Inl (ATA_fatal e)
         | Inr (a, buf) \<Rightarrow> Inr (st\<lparr>ata := a, gFATSectorBuf := buf, gSecNumInFATBuf := sector\<rparr>))
      else Inr st)"

text \<open>Little-endian fields at byte offset \<open>i\<close> of a byte array.\<close>

definition getLE32 :: "u8 list \<Rightarrow> nat \<Rightarrow> u32" where
  "getLE32 p i =
     ucast (p ! i) OR push_bit 8 (ucast (p ! (i + 1))) OR push_bit 16 (ucast (p ! (i + 2)))
       OR push_bit 24 (ucast (p ! (i + 3)))"

definition getLE16 :: "u8 list \<Rightarrow> nat \<Rightarrow> u16" where
  "getLE16 p i = ucast (p ! i) OR push_bit 8 (ucast (p ! (i + 1)))"

text \<open>
  \<open>fat32_findnextcluster\<close>. Integer division by zero is undefined in C and yields 0
  here; a mounted volume has nonzero \<open>blks_per_sector\<close> and \<open>bytes_per_sector\<close>.
\<close>

definition fat32_findnextcluster :: "fat_state \<Rightarrow> u32 \<Rightarrow> (fat_state \<times> u32) fat_outcome" where
  "fat32_findnextcluster st prev_cluster =
     (if bits_per_fat_entry (fat st) \<noteq> 16 \<and> bits_per_fat_entry (fat st) \<noteq> 32
      then Inl Invalid_bits_per_fat_entry
      else
        (let fatOffset = (if bits_per_fat_entry (fat st) = 16 then prev_cluster * 2
                          else prev_cluster * 4);
             sector = fat_offset (fat st) div ucast (blks_per_sector (fat st)) +
                      (ucast (number_of_reserved_sectors (fat st)) +
                       fatOffset div ucast (bytes_per_sector (fat st)));
             offset = fatOffset mod ucast (bytes_per_sector (fat st))
         in case readToSectorBuf st sector of
              Inl e \<Rightarrow> Inl e
            | Inr st1 \<Rightarrow>
                if bits_per_fat_entry (fat st) = 16 then
                  (let ret = (ucast (getLE16 (concat (gFATSectorBuf st1)) (unat offset)) :: u32)
                   in Inr (st1, if ret < 2 \<or> 0xFFF0 \<le> ret then 0 else ret))
                else
                  (let ret = getLE32 (concat (gFATSectorBuf st1)) (unat offset) AND 0x0FFFFFFF
                   in Inr (st1, if ret < 2 \<or> 0x0FFFFFF0 \<le> ret then 0 else ret))))"

definition calc_lba :: "fat_t \<Rightarrow> u32 \<Rightarrow> bool \<Rightarrow> u32" where
  "calc_lba fs start isRootDir =
     fat_offset fs +
       (ucast (number_of_reserved_sectors fs) + ucast (number_of_fats fs) * sectors_per_fat fs +
        (start - 2) * ucast (sectors_per_cluster fs) +
        (if isRootDir then 0 else data_area_offset fs))
       * ucast (blks_per_sector fs)"

text \<open>The fast-forward loop of \<open>fat32_read\<close>: \<open>clusterNum\<close> steps along the chain.\<close>

fun ffwd_clusters :: "fat_state \<Rightarrow> u32 \<Rightarrow> nat \<Rightarrow> (fat_state \<times> u32) fat_outcome" where
  "ffwd_clusters st cluster 0 = Inr (st, cluster)"
| "ffwd_clusters st cluster (Suc n) =
     (case fat32_findnextcluster st cluster of
        Inl e \<Rightarrow> Inl e
      | Inr (st1, c1) \<Rightarrow> ffwd_clusters st1 c1 n)"

text \<open>
  Reading a cluster into the cluster buffer: \<open>ata_readblocks (clusterBuffer, lba, count)\<close>.
\<close>

definition read_to_clusterBuffer :: "fat_state \<Rightarrow> u32 \<Rightarrow> u32 \<Rightarrow> fat_state fat_outcome" where
  "read_to_clusterBuffer st lba count =
     (case ata_readblocks (ata st) (clusterBuffer st) lba count of
        Inl (e, a) \<Rightarrow> Inl (ATA_fatal e)
      | Inr (a, buf) \<Rightarrow> Inr (st\<lparr>ata := a, clusterBuffer := buf\<rparr>))"

text \<open>
  The loop over complete clusters, \<open>while (read < (toRead / bytes_per_cluster) *
  bytes_per_cluster)\<close>. \<open>out\<close> is what has been copied to the destination so far: every
  \<open>mlc_memcpy\<close> of \<open>fat32_read\<close> writes at \<open>ptr + read\<close>, right behind the previous
  one. \<open>read\<close> is a \<open>uint32\<close> and may wrap around, so the loop is not known to end:
  \<open>None\<close> stands for a run that does not return.
\<close>

partial_function (option) read_whole_clusters ::
  "fat_state \<Rightarrow> u8 list \<Rightarrow> u32 \<Rightarrow> u32 \<Rightarrow> u32 \<Rightarrow>
     ((fat_state \<times> u8 list \<times> u32 \<times> u32) fat_outcome) option" where
  "read_whole_clusters st out cluster read bound =
     (if read < bound then
        (case fat32_findnextcluster st cluster of
           Inl e \<Rightarrow> Some (Inl e)
         | Inr (st1, c1) \<Rightarrow>
             (case read_to_clusterBuffer st1 (calc_lba (fat st1) c1 False)
                     (ucast (blks_per_cluster (fat st1))) of
                Inl e \<Rightarrow> Some (Inl e)
              | Inr st2 \<Rightarrow>
                  read_whole_clusters st2
                    (out @ take (unat (bytes_per_cluster (fat st2))) (concat (clusterBuffer st2)))
                    c1 (read + bytes_per_cluster (fat st2)) bound))
      else Some (Inr (st, out, cluster, read)))"

declare read_whole_clusters.simps [code]

text \<open>The last, partial cluster: \<open>if (read < toRead)\<close>.\<close>

definition read_final_cluster ::
  "fat_state \<Rightarrow> u8 list \<Rightarrow> u32 \<Rightarrow> u32 \<Rightarrow> u32 \<Rightarrow> (fat_state \<times> u8 list \<times> u32) fat_outcome" where
  "read_final_cluster st out cluster read toRead =
     (if read < toRead then
        (case fat32_findnextcluster st cluster of
           Inl e \<Rightarrow> Inl e
         | Inr (st1, c1) \<Rightarrow>
             (case read_to_clusterBuffer st1 (calc_lba (fat st1) c1 False)
                     (ucast (blks_per_cluster (fat st1))) of
                Inl e \<Rightarrow> Inl e
              | Inr st2 \<Rightarrow>
                  Inr (st2, out @ take (unat (toRead - read)) (concat (clusterBuffer st2)), toRead)))
      else Inr (st, out, read))"

text \<open>
  The byte count \<open>fat32_read\<close> settles on: \<open>sz * nmemb\<close>, replaced by
  \<open>length + position\<close> when larger than that.
\<close>

definition read_request :: "fat32_file \<Rightarrow> u32 \<Rightarrow> u32 \<Rightarrow> u32" where
  "read_request f sz nmemb =
     (if file_length f + file_position f < sz * nmemb then file_length f + file_position f
      else sz * nmemb)"

text \<open>
  \<open>fat32_read\<close>. The result is the returned count \<open>read / size\<close>, the bytes copied to
  the destination (from its start on), and the state. \<open>None\<close>: the descriptor has no
  handle, or the loop over complete clusters does not end.
\<close>

definition fat32_read ::
  "fat_state \<Rightarrow> u32 \<Rightarrow> u32 \<Rightarrow> int \<Rightarrow> ((u32 \<times> u8 list \<times> fat_state) fat_outcome) option" where
  "fat32_read st sz nmemb fd =
     (case file_of (fat st) fd of
        None \<Rightarrow> None
      | Some f \<Rightarrow>
          (let toRead = read_request f sz nmemb;
               bpc = bytes_per_cluster (fat st);
               clusterNum = file_position f div bpc
           in case ffwd_clusters st (file_cluster f) (unat clusterNum) of
                Inl e \<Rightarrow> Some (Inl e)
              | Inr (st1, cluster) \<Rightarrow>
                  (let offsetInCluster = file_position f mod bpc;
                       lba = calc_lba (fat st1) cluster False;
                       toReadInCluster = bpc - offsetInCluster;
                       bps = (ucast (bytes_per_sector (fat st1)) :: u32)
                   in case read_to_clusterBuffer st1 lba
                             ((toReadInCluster + bps - 1) div bps *
                              ucast (blks_per_sector (fat st1))) of
                        Inl e \<Rightarrow> Some (Inl e)
                      | Inr st2 \<Rightarrow>
                          (let toReadInCluster' =
                                 (if toRead < toReadInCluster then toRead else toReadInCluster);
                               out = take (unat toReadInCluster')
                                       (drop (unat offsetInCluster) (concat (clusterBuffer st2)))
                           in case read_whole_clusters st2 out cluster toReadInCluster'
                                     (toRead div bpc * bpc) of
                                None \<Rightarrow> None
                              | Some (Inl e) \<Rightarrow> Some (Inl e)
                              | Some (Inr (st3, out3, cluster3, read3)) \<Rightarrow>
                                  (case read_final_cluster st3 out3 cluster3 read3 toRead of
                                     Inl e \<Rightarrow> Some (Inl e)
                                   | Inr (st4, out4, read4) \<Rightarrow>
                                       Some (Inr (read4 div sz, out4,
                                         st4\<lparr>fat := set_file (fat st4) fd
                                           (f\<lparr>file_position := file_position f + toRead\<rparr>)\<rparr>)))))))"

subsection \<open>Mounting\<close>











subsection \<open>Directory entries\<close>

text \<open>
  \<open>lfn_checksum\<close> of the 11 name bytes at the start of a short entry; the sum is a
  \<open>uint8\<close>.
\<close>

definition lfn_checksum :: "u8 list \<Rightarrow> u8" where
  "lfn_checksum entryName =
     foldl (\<lambda>sum c. (if sum AND 1 \<noteq> 0 then 0x80 else 0) + drop_bit 1 sum + c) 0
       (take 11 entryName)"

text \<open>
  C strings are kept as the list of their characters before the terminating zero. The
  three functions of minilibc (not among the sources) behave as their BSD namesakes:
  \<open>mlc_strlcpy (dst, src, size)\<close> copies at most \<open>size - 1\<close> characters of the string at
  \<open>src\<close>, \<open>mlc_strlcat (dst, src, size)\<close> appends as long as the result stays below
  \<open>size\<close> characters.
\<close>

definition mlc_strlcpy :: "u8 list \<Rightarrow> nat \<Rightarrow> u8 list" where
  "mlc_strlcpy src n = takeWhile (\<lambda>c. c \<noteq> 0) (take (n - 1) src)"

definition mlc_strlcat :: "u8 list \<Rightarrow> u8 list \<Rightarrow> nat \<Rightarrow> u8 list" where
  "mlc_strlcat dst src n = take (n - 1) (dst @ src)"

definition trimr :: "u8 list \<Rightarrow> u8 list" where
  "trimr s = rev (dropWhile (\<lambda>c. c = 0x20) (rev s))"

text \<open>
  \<open>ucs2cpy (dest + d, ucs2src + s, chars)\<close>, with the running count \<open>unknown_chars\<close>:
  the buffer written to and the count.
\<close>

fun ucs2cpy :: "u8 list \<Rightarrow> nat \<Rightarrow> u8 list \<Rightarrow> nat \<Rightarrow> nat \<Rightarrow> nat \<Rightarrow> u8 list \<times> nat" where
  "ucs2cpy dest d ucs2src s 0 unknown_chars = (dest, unknown_chars)"
| "ucs2cpy dest d ucs2src s (Suc chars) unknown_chars =
     (if getLE16 ucs2src s = 0x0000 then
        ucs2cpy (dest[d := 0]) (Suc d) ucs2src (s + 2) chars unknown_chars
      else if getLE16 ucs2src s = 0xFFFF then
        ucs2cpy (dest[d := 0]) (Suc d) ucs2src (s + 2) chars unknown_chars
      else if 0x0020 \<le> getLE16 ucs2src s \<and> getLE16 ucs2src s \<le> 0x007E then
        ucs2cpy (dest[d := ucast (getLE16 ucs2src s AND 0x00FF)]) (Suc d) ucs2src (s + 2) chars
          unknown_chars
      else
        ucs2cpy (dest[d := 0x5F]) (Suc d) ucs2src (s + 2) chars (Suc unknown_chars))"

text \<open>
  A long-name slot in \<open>getNextCompleteEntry\<close>: \<open>seq\<close> is byte 0, \<open>name0_4\<close> bytes 1 to
  10, \<open>alias_checksum\<close> byte 13, \<open>name5_10\<close> bytes 14 to 25, \<open>name11_12\<close> bytes 28 to 31.
  The state is the static buffer \<open>longname\<close> of 256 characters and the locals \<open>chksum\<close>
  and \<open>namegood\<close>.
\<close>

definition lfn_offset :: "u8 list \<Rightarrow> int" where
  "lfn_offset slot = 13 * (uint (slot ! 0 AND 0x1F) - 1)"

definition lfn_name :: "u8 list \<Rightarrow> u8 list \<Rightarrow> u8 \<Rightarrow> bool \<Rightarrow> u8 list \<times> u8 \<times> bool" where
  "lfn_name slot longname chksum namegood =
     (if namegood then
        (case ucs2cpy longname (nat (lfn_offset slot)) slot 1 5 0 of
           (ln1, n1) \<Rightarrow>
             (case ucs2cpy ln1 (nat (lfn_offset slot) + 5) slot 14 6 0 of
                (ln2, n2) \<Rightarrow>
                  (case ucs2cpy ln2 (nat (lfn_offset slot) + 11) slot 28 2 0 of
                     (ln3, n3) \<Rightarrow> (ln3, chksum, \<not> 0 < n1 + n2 + n3))))
      else (longname, chksum, namegood))"

definition lfn_slot :: "u8 list \<Rightarrow> u8 list \<Rightarrow> u8 \<Rightarrow> bool \<Rightarrow> u8 list \<times> u8 \<times> bool" where
  "lfn_slot slot longname chksum namegood =
     (if 0 \<le> lfn_offset slot \<and> lfn_offset slot < 256 - 1 - 13 \<and> slot ! 0 AND 0x80 = 0 then
        (if slot ! 0 AND 0x40 \<noteq> 0 then lfn_name slot (replicate 256 0) (slot ! 13) True
         else lfn_name slot longname chksum namegood)
      else (longname, chksum, False))"

text \<open>What \<open>getNextCompleteEntry\<close> hands out for a short entry.\<close>

record dir_entry =
  de_shortname :: "u8 list"
  de_longname :: "u8 list"
  de_cluster :: u32
  de_flength :: u32
  de_ftype :: u8

definition short_name :: "u8 list \<Rightarrow> u8 list" where
  "short_name entry =
     trimr
       (if entry ! 0x0B AND 8 \<noteq> 0 then mlc_strlcpy entry (11 + 1)
        else
          (let shortname = trimr (mlc_strlcpy entry (8 + 1));
               ext = trimr (mlc_strlcpy (drop 8 entry) 4)
           in if ext \<noteq> [] then mlc_strlcat (mlc_strlcat shortname [0x2E] 13) ext 13
              else shortname))"

definition short_entry :: "fat_t \<Rightarrow> u8 list \<Rightarrow> u8 list \<Rightarrow> u8 \<Rightarrow> bool \<Rightarrow> dir_entry" where
  "short_entry fs entry longname chksum namegood =
     \<lparr>de_shortname = short_name entry,
      de_longname =
        (if \<not> namegood \<or> chksum \<noteq> lfn_checksum entry then longname[0 := 0] else longname),
      de_cluster =
        (if bits_per_fat_entry fs = 32
         then ucast (getLE16 entry 0x1A) OR push_bit 16 (ucast (getLE16 entry 0x14))
         else ucast (getLE16 entry 0x1A)),
      de_flength = getLE32 entry 0x1C,
      de_ftype = entry ! 0x0B\<rparr>"

text \<open>
  The loop of \<open>getNextCompleteEntry\<close> over the raw entries that \<open>getNextRawEntry\<close> hands
  out in turn (the list ends where it returns null). The result is the entry found
  (\<open>None\<close> for the return value 0), the raw entries left, and the static buffer
  \<open>longname\<close>, which \<open>*longnameOut\<close> points to.
\<close>

fun complete_entry_loop ::
  "fat_t \<Rightarrow> u8 list list \<Rightarrow> u8 list \<Rightarrow> u8 \<Rightarrow> bool \<Rightarrow>
     dir_entry option \<times> u8 list list \<times> u8 list" where
  "complete_entry_loop fs [] longname chksum namegood = (None, [], longname)"
| "complete_entry_loop fs (entry # rest) longname chksum namegood =
     (if entry ! 0 = 0 then (None, rest, longname)
      else if entry ! 0 = 0xE5 then complete_entry_loop fs rest longname chksum namegood
      else if entry ! 0x0B = 0x0F then
        (case lfn_slot entry longname chksum namegood of
           (longname', chksum', namegood') \<Rightarrow>
             complete_entry_loop fs rest longname' chksum' namegood')
      else
        (Some (short_entry fs entry longname chksum namegood), rest,
         de_longname (short_entry fs entry longname chksum namegood)))"

definition getNextCompleteEntry ::
  "fat_t \<Rightarrow> u8 list list \<Rightarrow> u8 list \<Rightarrow> dir_entry option \<times> u8 list list \<times> u8 list" where
  "getNextCompleteEntry fs entries longname = complete_entry_loop fs entries longname 0 False"

text \<open>
  The kinds of raw entries, and of long-name slots: a deleted entry, a long-name slot, a
  short entry; a slot flagged as the first of its group (bit 6 of \<open>seq\<close>); a slot whose
  index (bits 0 to 4 of \<open>seq\<close>) is between 1 and 19 and whose bit 7 is clear; the 13 code
  units of a slot; the code units \<open>ucs2cpy\<close> does not count as unknown, and the character
  it writes for each; the buffer with the 13 characters of a slot put at 13 times its
  index less one.
\<close>

definition is_deleted :: "u8 list \<Rightarrow> bool" where
  "is_deleted e = (e ! 0 = 0xE5)"

definition is_lfn :: "u8 list \<Rightarrow> bool" where
  "is_lfn e = (e ! 0 \<noteq> 0 \<and> e ! 0 \<noteq> 0xE5 \<and> e ! 0x0B = 0x0F)"

definition is_short :: "u8 list \<Rightarrow> bool" where
  "is_short e = (e ! 0 \<noteq> 0 \<and> e ! 0 \<noteq> 0xE5 \<and> e ! 0x0B \<noteq> 0x0F)"

definition lfn_flagged :: "u8 list \<Rightarrow> bool" where
  "lfn_flagged e = (e ! 0 AND 0x40 \<noteq> 0)"

definition lfn_index :: "u8 list \<Rightarrow> nat" where
  "lfn_index e = unat (e ! 0 AND 0x1F)"

definition lfn_index_ok :: "u8 list \<Rightarrow> bool" where
  "lfn_index_ok e = (1 \<le> lfn_index e \<and> lfn_index e \<le> 19 \<and> e ! 0 AND 0x80 = 0)"

definition lfn_code_units :: "u8 list \<Rightarrow> u16 list" where
  "lfn_code_units e = map (getLE16 e) [1, 3, 5, 7, 9, 14, 16, 18, 20, 22, 24, 28, 30]"

definition ucs2_known :: "u16 \<Rightarrow> bool" where
  "ucs2_known c = (c = 0x0000 \<or> c = 0xFFFF \<or> (0x0020 \<le> c \<and> c \<le> 0x007E))"

definition ucs2_ascii :: "u16 \<Rightarrow> u8" where
  "ucs2_ascii c =
     (if c = 0x0000 \<or> c = 0xFFFF then 0 else if 0x0020 \<le> c \<and> c \<le> 0x007E then ucast c
      else 0x5F)"

definition lfn_put :: "u8 list \<Rightarrow> u8 list \<Rightarrow> u8 list" where
  "lfn_put e longname =
     take (13 * (lfn_index e - 1)) longname @ map ucs2_ascii (lfn_code_units e) @
     drop (13 * (lfn_index e - 1) + 13) longname"

definition lfn_good :: "u8 list \<Rightarrow> bool" where
  "lfn_good e = (lfn_index_ok e \<and> list_all ucs2_known (lfn_code_units e))"

section \<open>Properties of the block device driver\<close>

declare cached_fill.simps [simp del] uncached_fill.simps [simp del]

lemma and_not_low_mask:
  "(s :: u32) AND NOT (push_bit k 1 - 1) = push_bit k (drop_bit k s)"
proof -
  have "push_bit k (1 :: u32) - 1 = mask k"
    by (simp add: push_bit_of_1 mask_eq_exp_minus_1)
  moreover have "s AND NOT (mask k) = push_bit k (drop_bit k s)"
    by (rule bit_eqI) (auto simp: bit_simps)
  ultimately show ?thesis by simp
qed

lemma dvd_unat_push_bit: "2 ^ k dvd unat (push_bit k (w :: 'a::len word))"
proof (cases "k \<le> LENGTH('a)")
  case True
  have "unat (push_bit k w) = take_bit LENGTH('a) (push_bit k (unat w))"
    by (simp only: unsigned_push_bit_eq)
  then have "unat (push_bit k w) = (unat w * 2 ^ k) mod 2 ^ LENGTH('a)"
    by (simp only: take_bit_eq_mod push_bit_eq_mult)
  moreover have "(2::nat) ^ k dvd 2 ^ LENGTH('a)"
    using True by (simp add: le_imp_power_dvd)
  ultimately show ?thesis
    by (simp add: dvd_mod)
next
  case False
  then have "push_bit k w = 0"
    by (intro bit_eqI) (auto simp: bit_simps dest: bit_imp_le_length)
  then show ?thesis by simp
qed

lemma read_size_push_bit: "(ucast (push_bit k (1 :: u32)) :: u16) = push_bit k 1"
  by (rule bit_eqI) (auto simp: bit_simps)

lemma aligned_lba: "2 ^ k dvd unat ((s :: u32) AND NOT (push_bit k 1 - 1))"
  by (simp only: and_not_low_mask dvd_unat_push_bit)

lemma aligned_count: "2 ^ k dvd unat (ucast (push_bit k (1 :: u32)) :: u16)"
  by (simp only: read_size_push_bit dvd_unat_push_bit)

lemma same_device_refl: "same_device st st"
  by (simp add: same_device_def)

lemma same_device_trans: "same_device a b \<Longrightarrow> same_device b c \<Longrightarrow> same_device a c"
  by (simp add: same_device_def)

lemma find_cache_entry_same_device: "same_device st (snd (find_cache_entry st s))"
  by (simp add: find_cache_entry_def same_device_def split: option.splits)

lemma create_cache_entry_same_device: "same_device st (snd (create_cache_entry st s))"
  using find_cache_entry_same_device [of st s]
  by (simp add: create_cache_entry_def Let_def split_beta same_device_def)

lemma receive_Inl: "ata_receive_read_data st i = Inl e \<Longrightarrow> e = (ATA_IO_error, st)"
  by (auto simp: ata_receive_read_data_def split: option.splits)

lemma cached_fill_same_device:
  "same_device st (final_state (cached_fill st dst sector i bound))"
proof (induction st dst sector i bound rule: cached_fill.induct)
  case (1 st dst sector i bound)
  show ?case
  proof (cases "i < bound")
    case False
    then show ?thesis
      by (subst cached_fill.simps) (simp add: final_state_def same_device_refl)
  next
    case True
    obtain ci st1 where c: "create_cache_entry st i = (ci, st1)"
      by (cases "create_cache_entry st i")
    then have i1: "same_device st st1"
      using create_cache_entry_same_device [of st i] by simp
    show ?thesis
    proof (cases "get_cache_entry_buffer ci")
      case None
      then show ?thesis using True c i1
        by (subst cached_fill.simps) (simp add: final_state_def)
    next
      case (Some slot)
      show ?thesis
      proof (cases "ata_receive_read_data st1 i")
        case (Inl e)
        then show ?thesis using True c i1 Some receive_Inl [OF Inl]
          by (subst cached_fill.simps) (simp add: final_state_def)
      next
        case (Inr data)
        have "same_device st1 (st1\<lparr>cachedata := (cachedata st1)[slot := data]\<rparr>)"
          by (simp add: same_device_def)
        with i1 have "same_device st (st1\<lparr>cachedata := (cachedata st1)[slot := data]\<rparr>)"
          by (rule same_device_trans)
        then show ?thesis
          using True c Some Inr "1.IH" [OF True c [symmetric] Some Inr]
          by (subst cached_fill.simps) (auto intro: same_device_trans)
      qed
    qed
  qed
qed

lemma uncached_fill_state:
  "final_state (uncached_fill st dst sector i bound) = st"
proof (induction st dst sector i bound rule: uncached_fill.induct)
  case (1 st dst sector i bound)
  show ?case
  proof (cases "i < bound")
    case False
    then show ?thesis by (subst uncached_fill.simps) (simp add: final_state_def)
  next
    case True
    show ?thesis
    proof (cases "ata_receive_read_data st i")
      case (Inl e)
      then show ?thesis using True receive_Inl [OF Inl]
        by (subst uncached_fill.simps) (simp add: final_state_def)
    next
      case (Inr data)
      then show ?thesis using True "1.IH" [OF True Inr]
        by (subst uncached_fill.simps) simp
    qed
  qed
qed

lemma send_read_command_issued:
  "issued (ata_send_read_command st lba count) =
     issued st @ [last (issued (ata_send_read_command st lba count))]"
  "rc_lba (last (issued (ata_send_read_command st lba count))) = lba"
  "rc_count (last (issued (ata_send_read_command st lba count))) = count"
  "dev_lba48 (ata_send_read_command st lba count) = dev_lba48 st"
  "dev_alignment_log2 (ata_send_read_command st lba count) = dev_alignment_log2 st"
  "medium (ata_send_read_command st lba count) = medium st"
  by (simp_all add: ata_send_read_command_def Let_def)


lemma readblock2_trace:
  "\<exists>cmds. issued (final_state (ata_readblock2 st dst sector useCache)) = issued st @ cmds \<and>
          list_all (aligned_command (unat (dev_alignment_log2 st))) cmds \<and> length cmds \<le> 1"
  and readblock2_alignment:
  "dev_alignment_log2 (final_state (ata_readblock2 st dst sector useCache)) = dev_alignment_log2 st"
proof -
  obtain ci st0 where f: "(if useCache then find_cache_entry st sector else (- 1, st)) = (ci, st0)"
    by (cases "if useCache then find_cache_entry st sector else (- 1, st)")
  have s0: "same_device st st0"
    using f find_cache_entry_same_device [of st sector]
    by (auto simp: same_device_refl split: if_splits)
  define k where "k = unat (dev_alignment_log2 st0)"
  define lba where "lba = sector AND NOT (push_bit k (1 :: u32) - 1)"
  define cnt where "cnt = (ucast (push_bit k (1 :: u32)) :: u16)"
  define st1 where "st1 = ata_send_read_command st0 lba cnt"
  define c where "c = last (issued st1)"
  have i1: "issued st1 = issued st @ [c]" "dev_alignment_log2 st1 = dev_alignment_log2 st"
    using s0 send_read_command_issued(1,5) [of st0 lba cnt]
    by (simp_all add: st1_def c_def same_device_def)
  have k: "k = unat (dev_alignment_log2 st)"
    using s0 by (simp add: k_def same_device_def)
  have al: "aligned_command k c"
    using send_read_command_issued(2,3) [of st0 lba cnt] aligned_lba [of k sector] aligned_count [of k]
    by (simp add: aligned_command_def c_def st1_def lba_def cnt_def)
  have cf: "same_device st1 (final_state (cached_fill st1 dst sector lba (lba + ucast cnt)))"
    by (rule cached_fill_same_device)
  have uf: "final_state (uncached_fill st1 dst sector lba (lba + ucast cnt)) = st1"
    by (rule uncached_fill_state)
  have cf': "final_state (case cached_fill st1 dst sector lba (lba + ucast cnt) of
                 Inl e \<Rightarrow> Inl e
               | Inr (st2, dst') \<Rightarrow> Inr (st2\<lparr>cacheticks := cacheticks st2 + 1\<rparr>, dst')) = stx
        \<Longrightarrow> same_device st1 stx" for stx
    using cf by (auto simp: final_state_def same_device_def split: sum.splits prod.splits)
  have unfolded: "ata_readblock2 st dst sector useCache =
     (if useCache \<and> 0 \<le> ci then
            (case get_cache_entry_buffer ci of
               None \<Rightarrow> Inl (Invalid_cache_index, st0)
             | Some slot \<Rightarrow> Inr (st0, cachedata st0 ! slot))
          else if dev_lba48 st0 = 0 \<and> 0x0FFFFFFF < sector then Inl (Out_of_bounds_read, st0)
          else if useCache then
                  (case cached_fill st1 dst sector lba (lba + ucast cnt) of
                     Inl e \<Rightarrow> Inl e
                   | Inr (st2, dst') \<Rightarrow> Inr (st2\<lparr>cacheticks := cacheticks st2 + 1\<rparr>, dst'))
                else uncached_fill st1 dst sector lba (lba + ucast cnt))"
    unfolding ata_readblock2_def f by (simp add: Let_def k_def lba_def cnt_def st1_def)
  show "\<exists>cmds. issued (final_state (ata_readblock2 st dst sector useCache)) = issued st @ cmds \<and>
          list_all (aligned_command (unat (dev_alignment_log2 st))) cmds \<and> length cmds \<le> 1"
    unfolding unfolded using s0 i1 al cf' uf k
    by (auto simp: final_state_def same_device_def split: option.splits)
  show "dev_alignment_log2 (final_state (ata_readblock2 st dst sector useCache)) = dev_alignment_log2 st"
    unfolding unfolded using s0 i1 cf' uf
    by (auto simp: final_state_def same_device_def split: option.splits)
qed


lemma readblocks_loop_trace:
  "\<exists>cmds. issued (final_state (readblocks_loop uc st dst j sector n)) = issued st @ cmds \<and>
          list_all (aligned_command (unat (dev_alignment_log2 st))) cmds"
proof (induction n arbitrary: st dst j sector)
  case 0
  show ?case by (simp add: final_state_def)
next
  case (Suc n)
  obtain c1 where c1: "issued (final_state (ata_readblock2 st (dst ! j) sector uc)) = issued st @ c1"
      "list_all (aligned_command (unat (dev_alignment_log2 st))) c1"
    using readblock2_trace [of st "dst ! j" sector uc] by blast
  show ?case
  proof (cases "ata_readblock2 st (dst ! j) sector uc")
    case (Inl e)
    then show ?thesis using c1 by (auto simp: final_state_def)
  next
    case (Inr r)
    obtain st' b where r: "r = (st', b)" by (cases r)
    have st': "final_state (ata_readblock2 st (dst ! j) sector uc) = st'"
      using Inr r by (simp add: final_state_def)
    have k: "dev_alignment_log2 st' = dev_alignment_log2 st"
      using readblock2_alignment [of st "dst ! j" sector uc] st' by simp
    obtain c2 where c2:
      "issued (final_state (readblocks_loop uc st' (dst[j := b]) (Suc j) (sector + 1) n)) = issued st' @ c2"
      "list_all (aligned_command (unat (dev_alignment_log2 st'))) c2"
      using Suc.IH [of st' "dst[j := b]" "Suc j" "sector + 1"] by blast
    have "issued (final_state (readblocks_loop uc st dst j sector (Suc n))) = issued st @ (c1 @ c2)"
      using Inr r c1(1) c2(1) st' by simp
    moreover have "list_all (aligned_command (unat (dev_alignment_log2 st))) (c1 @ c2)"
      using c1(2) c2(2) k by simp
    ultimately show ?thesis by blast
  qed
qed

text \<open>
  Claim C2. Whatever sector is asked for and whatever \<open>alignment_log2 = k\<close> is
  configured, every read command that \<open>ata_readblock\<close>, \<open>ata_readblocks\<close> or
  \<open>ata_readblocks_uncached\<close> adds to the trace of issued commands starts at a
  logical block address divisible by \<open>2 ^ k\<close> and asks for a multiple of \<open>2 ^ k\<close>
  blocks. This covers runs that end in a fatal halt as well.
\<close>

theorem ata_reads_aligned:
  "(\<exists>cmds. issued (final_state (ata_readblock st dst sector)) = issued st @ cmds \<and>
           list_all (aligned_command (unat (dev_alignment_log2 st))) cmds) \<and>
   (\<exists>cmds. issued (final_state (ata_readblocks st dsts sector count)) = issued st @ cmds \<and>
           list_all (aligned_command (unat (dev_alignment_log2 st))) cmds) \<and>
   (\<exists>cmds. issued (final_state (ata_readblocks_uncached st dsts sector count)) = issued st @ cmds \<and>
           list_all (aligned_command (unat (dev_alignment_log2 st))) cmds)"
proof (intro conjI)
  show "\<exists>cmds. issued (final_state (ata_readblock st dst sector)) = issued st @ cmds \<and>
           list_all (aligned_command (unat (dev_alignment_log2 st))) cmds"
    using readblock2_trace [of st dst sector True] unfolding ata_readblock_def by blast
  show "\<exists>cmds. issued (final_state (ata_readblocks st dsts sector count)) = issued st @ cmds \<and>
           list_all (aligned_command (unat (dev_alignment_log2 st))) cmds"
    unfolding ata_readblocks_def by (rule readblocks_loop_trace)
  show "\<exists>cmds. issued (final_state (ata_readblocks_uncached st dsts sector count)) = issued st @ cmds \<and>
           list_all (aligned_command (unat (dev_alignment_log2 st))) cmds"
    unfolding ata_readblocks_uncached_def by (rule readblocks_loop_trace)
qed

subsection \<open>The two scans of the cache\<close>

lemma find_cache_scan_None:
  "find_cache_scan addr s i n = None \<longleftrightarrow> (\<forall>j. i \<le> j \<and> j < i + n \<longrightarrow> addr ! j \<noteq> s)"
proof (induction n arbitrary: i)
  case 0
  show ?case by auto
next
  case (Suc n)
  show ?case
  proof (cases "addr ! i = s")
    case True
    then show ?thesis by auto
  next
    case False
    have "(\<forall>j. Suc i \<le> j \<and> j < Suc i + n \<longrightarrow> addr ! j \<noteq> s) \<longleftrightarrow>
          (\<forall>j. i \<le> j \<and> j < i + Suc n \<longrightarrow> addr ! j \<noteq> s)"
      using False by (metis Suc_leD Suc_leI add_Suc_right add_Suc_shift le_neq_implies_less)
    then show ?thesis using False Suc.IH [of "Suc i"] by simp
  qed
qed

lemma find_cache_scan_Some:
  "find_cache_scan addr s i n = Some j \<longleftrightarrow>
     (i \<le> j \<and> j < i + n \<and> addr ! j = s \<and> (\<forall>j'. i \<le> j' \<and> j' < j \<longrightarrow> addr ! j' \<noteq> s))"
proof (induction n arbitrary: i)
  case 0
  show ?case by auto
next
  case (Suc n)
  show ?case
  proof (cases "addr ! i = s")
    case True
    have "(i \<le> j \<and> j < i + Suc n \<and> addr ! j = s \<and> (\<forall>j'. i \<le> j' \<and> j' < j \<longrightarrow> addr ! j' \<noteq> s)) \<longleftrightarrow> j = i"
    proof
      assume a: "i \<le> j \<and> j < i + Suc n \<and> addr ! j = s \<and> (\<forall>j'. i \<le> j' \<and> j' < j \<longrightarrow> addr ! j' \<noteq> s)"
      show "j = i"
      proof (rule ccontr)
        assume "j \<noteq> i"
        with a have "i \<le> i \<and> i < j" by simp
        with a have "addr ! i \<noteq> s" by blast
        with True show False by simp
      qed
    next
      assume "j = i"
      then show "i \<le> j \<and> j < i + Suc n \<and> addr ! j = s \<and> (\<forall>j'. i \<le> j' \<and> j' < j \<longrightarrow> addr ! j' \<noteq> s)"
        using True by auto
    qed
    then show ?thesis using True by auto
  next
    case False
    have "(Suc i \<le> j \<and> j < Suc i + n \<and> addr ! j = s \<and> (\<forall>j'. Suc i \<le> j' \<and> j' < j \<longrightarrow> addr ! j' \<noteq> s)) \<longleftrightarrow>
          (i \<le> j \<and> j < i + Suc n \<and> addr ! j = s \<and> (\<forall>j'. i \<le> j' \<and> j' < j \<longrightarrow> addr ! j' \<noteq> s))"
      using False
      by (metis Suc_leD Suc_leI add_Suc_right add_Suc_shift le_neq_implies_less)
    then show ?thesis using False Suc.IH [of "Suc i"] by simp
  qed
qed

lemma lru_scan_result:
  "(lru_scan tick c i n = c \<or> (i \<le> lru_scan tick c i n \<and> lru_scan tick c i n < i + n)) \<and>
   tick ! lru_scan tick c i n \<le> tick ! c \<and>
   (\<forall>j. i \<le> j \<and> j < i + n \<longrightarrow> tick ! lru_scan tick c i n \<le> tick ! j)"
proof (induction n arbitrary: c i)
  case 0
  show ?case by auto
next
  case (Suc n)
  show ?case
  proof (cases "tick ! i < tick ! c")
    case True
    let ?r = "lru_scan tick i (Suc i) n"
    have r: "lru_scan tick c i (Suc n) = ?r" using True by simp
    have ih: "(?r = i \<or> (Suc i \<le> ?r \<and> ?r < Suc i + n))" "tick ! ?r \<le> tick ! i"
        "\<forall>j. Suc i \<le> j \<and> j < Suc i + n \<longrightarrow> tick ! ?r \<le> tick ! j"
      using Suc.IH [of i "Suc i"] by blast+
    have "\<forall>j. i \<le> j \<and> j < i + Suc n \<longrightarrow> tick ! ?r \<le> tick ! j"
    proof (intro allI impI)
      fix j assume j: "i \<le> j \<and> j < i + Suc n"
      show "tick ! ?r \<le> tick ! j"
      proof (cases "j = i")
        case True then show ?thesis using ih(2) by simp
      next
        case False
        then have "Suc i \<le> j \<and> j < Suc i + n" using j by simp
        then show ?thesis using ih(3) by blast
      qed
    qed
    moreover have "tick ! ?r \<le> tick ! c" using ih(2) True by simp
    moreover have "?r = c \<or> (i \<le> ?r \<and> ?r < i + Suc n)" using ih(1) by auto
    ultimately show ?thesis unfolding r by blast
  next
    case False
    let ?r = "lru_scan tick c (Suc i) n"
    have r: "lru_scan tick c i (Suc n) = ?r" using False by simp
    have ih: "(?r = c \<or> (Suc i \<le> ?r \<and> ?r < Suc i + n))" "tick ! ?r \<le> tick ! c"
        "\<forall>j. Suc i \<le> j \<and> j < Suc i + n \<longrightarrow> tick ! ?r \<le> tick ! j"
      using Suc.IH [of c "Suc i"] by blast+
    have "\<forall>j. i \<le> j \<and> j < i + Suc n \<longrightarrow> tick ! ?r \<le> tick ! j"
    proof (intro allI impI)
      fix j assume j: "i \<le> j \<and> j < i + Suc n"
      show "tick ! ?r \<le> tick ! j"
      proof (cases "j = i")
        case True then show ?thesis using ih(2) False by simp
      next
        case False
        then have "Suc i \<le> j \<and> j < Suc i + n" using j by simp
        then show ?thesis using ih(3) by blast
      qed
    qed
    moreover have "?r = c \<or> (i \<le> ?r \<and> ?r < i + Suc n)" using ih(1) by auto
    ultimately show ?thesis unfolding r using ih(2) by blast
  qed
qed

lemma lru_scan_bound: "lru_scan tick 0 0 n < max 1 n"
  using lru_scan_result [of tick 0 0 n] by auto

lemma lru_scan_least:
  "j < n \<Longrightarrow> tick ! lru_scan tick 0 0 n \<le> tick ! j"
  using lru_scan_result [of tick 0 0 n] by auto

subsection \<open>The invalid-sector mark\<close>

lemma find_cache_entry_sentinel: "find_cache_entry st (NOT 0) = (- 1, st)"
  by (simp add: find_cache_entry_def)

lemma cached_fill_done: "\<not> i < bound \<Longrightarrow> cached_fill st dst sector i bound = Inr (st, dst)"
  by (subst cached_fill.simps) simp

lemma uncached_fill_done: "\<not> i < bound \<Longrightarrow> uncached_fill st dst sector i bound = Inr (st, dst)"
  by (subst uncached_fill.simps) simp

lemma read_size_ucast:
  "(ucast (ucast (push_bit k (1 :: u32)) :: u16) :: u32) = (if k < 16 then push_bit k 1 else 0)"
  by (rule bit_eqI) (auto simp: bit_simps)

lemma sentinel_run_empty:
  "\<not> ((NOT 0 :: u32) AND NOT (push_bit k 1 - 1)) <
     ((NOT 0 :: u32) AND NOT (push_bit k 1 - 1)) + ucast (ucast (push_bit k (1 :: u32)) :: u16)"
proof -
  define lba :: u32 where "lba = NOT 0 AND NOT (push_bit k 1 - 1)"
  define c :: u32 where "c = ucast (ucast (push_bit k (1 :: u32)) :: u16)"
  have c: "c = (if k < 16 then 2 ^ k else 0)"
    unfolding c_def by (subst read_size_ucast) (simp add: push_bit_of_1)
  have "push_bit k (1 :: u32) - 1 = mask k"
    by (simp add: push_bit_of_1 mask_eq_exp_minus_1)
  then have l: "lba = - (2 ^ k)"
    unfolding lba_def by (simp add: minus_exp_eq_not_mask)
  have "\<not> lba < lba + c"
    by (simp add: l c)
  then show ?thesis
    unfolding lba_def c_def .
qed

lemma send_read_command_cache:
  "cacheticks (ata_send_read_command st lba count) = cacheticks st"
  "cachetick (ata_send_read_command st lba count) = cachetick st"
  "cacheaddr (ata_send_read_command st lba count) = cacheaddr st"
  "cachedata (ata_send_read_command st lba count) = cachedata st"
  by (simp_all add: ata_send_read_command_def Let_def)

lemma readblock_sentinel:
  "ata_readblock st dst (NOT 0) =
     (if dev_lba48 st = 0 then Inl (Out_of_bounds_read, st)
      else Inr (ata_send_read_command st
                  (NOT 0 AND NOT (push_bit (unat (dev_alignment_log2 st)) 1 - 1))
                  (ucast (push_bit (unat (dev_alignment_log2 st)) (1 :: u32)))
                \<lparr>cacheticks := cacheticks st + 1\<rparr>, dst))"
proof -
  define k where "k = unat (dev_alignment_log2 st)"
  define lba :: u32 where "lba = NOT 0 AND NOT (push_bit k 1 - 1)"
  define cnt :: u16 where "cnt = ucast (push_bit k (1 :: u32))"
  define st1 where "st1 = ata_send_read_command st lba cnt"
  have big: "(0x0FFFFFFF :: u32) < NOT 0"
    by simp
  have cf: "cached_fill st1 dst (NOT 0) lba (lba + ucast cnt) = Inr (st1, dst)"
    unfolding lba_def cnt_def by (rule cached_fill_done) (rule sentinel_run_empty)
  have "ata_readblock st dst (NOT 0) =
     (if dev_lba48 st = 0 then Inl (Out_of_bounds_read, st)
      else case cached_fill st1 dst (NOT 0) lba (lba + ucast cnt) of
             Inl e \<Rightarrow> Inl e
           | Inr (st2, dst') \<Rightarrow> Inr (st2\<lparr>cacheticks := cacheticks st2 + 1\<rparr>, dst'))"
    unfolding ata_readblock_def ata_readblock2_def
    using big by (simp add: find_cache_entry_def Let_def k_def lba_def cnt_def st1_def)
  then show ?thesis
    unfolding cf by (simp add: st1_def lba_def cnt_def k_def send_read_command_cache)
qed

text \<open>
  Claim C10, amended. The sector number \<open>0xFFFFFFFF\<close> is the cache's mark of an
  invalid slot. In every cache state the lookup of that sector reports a miss and leaves
  the state alone, so a cached read of it is never served from the cache. What the read
  does then depends on the addressing mode: under LBA28 it halts with the fatal
  out-of-bounds condition before any command is sent; under LBA48 it sends one read
  command to the device (no block of the run is received, since the loop's bound wraps,
  and the destination is left as it was).
\<close>

theorem sentinel_sector_bypasses_cache:
  "find_cache_entry st (NOT 0) = (- 1, st) \<and>
   ata_readblock st dst (NOT 0) =
     (if dev_lba48 st = 0 then Inl (Out_of_bounds_read, st)
      else Inr (ata_send_read_command st
                  (NOT 0 AND NOT (push_bit (unat (dev_alignment_log2 st)) 1 - 1))
                  (ucast (push_bit (unat (dev_alignment_log2 st)) (1 :: u32)))
                \<lparr>cacheticks := cacheticks st + 1\<rparr>, dst))"
  using find_cache_entry_sentinel readblock_sentinel by blast

text \<open>
  The claim as stated (every read of the sector goes to the hardware) fails under LBA28
  addressing: the read halts and the trace of issued commands stays empty.
\<close>

theorem sentinel_read_lba28_counterexample:
  "ata_readblock (ata_boot_state 0 0 (\<lambda>s. Some [])) [] (NOT 0) =
     Inl (Out_of_bounds_read, ata_boot_state 0 0 (\<lambda>s. Some [])) \<and>
   issued (final_state (ata_readblock (ata_boot_state 0 0 (\<lambda>s. Some [])) [] (NOT 0))) = []"
proof -
  have r: "ata_readblock (ata_boot_state 0 0 (\<lambda>s. Some [])) [] (NOT 0) =
     Inl (Out_of_bounds_read, ata_boot_state 0 0 (\<lambda>s. Some []))"
    by (subst readblock_sentinel) (simp add: ata_boot_state_def clear_cache_def)
  show ?thesis
    unfolding r by (simp add: final_state_def ata_boot_state_def clear_cache_def)
qed

text \<open>Under LBA48 the same read sends exactly one command.\<close>

theorem sentinel_sector_bypasses_cache_witness:
  "length (issued (final_state (ata_readblock (ata_boot_state 1 0 (\<lambda>s. Some [])) [] (NOT 0)))) = 1"
  using sentinel_sector_bypasses_cache [of "ata_boot_state 1 0 (\<lambda>s. Some [])" "[]"]
  by (simp add: final_state_def ata_send_read_command_def Let_def)
     (simp add: ata_boot_state_def clear_cache_def)

subsection \<open>Single steps of the cached read\<close>

lemma find_cache_entry_miss:
  "find_cache_scan (cacheaddr st) s 0 CACHE_NUMBLOCKS = None \<Longrightarrow> find_cache_entry st s = (- 1, st)"
  by (simp add: find_cache_entry_def)

lemma find_cache_entry_hit:
  "s \<noteq> NOT 0 \<Longrightarrow> find_cache_scan (cacheaddr st) s 0 CACHE_NUMBLOCKS = Some i \<Longrightarrow>
   find_cache_entry st s =
     (int i, st\<lparr>cacheticks := cacheticks st + 1,
                cachetick := (cachetick st)[i := cacheticks st + 1]\<rparr>)"
  by (simp add: find_cache_entry_def)

lemma create_cache_entry_miss:
  "find_cache_entry st s = (- 1, st) \<Longrightarrow>
   create_cache_entry st s =
     (int (lru_scan (cachetick st) 0 0 CACHE_NUMBLOCKS),
      st\<lparr>cacheaddr := (cacheaddr st)[lru_scan (cachetick st) 0 0 CACHE_NUMBLOCKS := s],
         cachetick := (cachetick st)[lru_scan (cachetick st) 0 0 CACHE_NUMBLOCKS := cacheticks st]\<rparr>)"
  by (simp add: create_cache_entry_def)

lemma create_cache_entry_hit:
  "find_cache_entry st s = (int i, st') \<Longrightarrow>
   create_cache_entry st s =
     (int i, st'\<lparr>cacheaddr := (cacheaddr st')[i := s],
                 cachetick := (cachetick st')[i := cacheticks st']\<rparr>)"
  by (simp add: create_cache_entry_def)

lemma lru_scan_in_range: "lru_scan tick 0 0 CACHE_NUMBLOCKS < CACHE_NUMBLOCKS"
  using lru_scan_bound [of tick CACHE_NUMBLOCKS] by (simp add: CACHE_NUMBLOCKS_def)

lemma get_cache_entry_buffer_in_range:
  "j < CACHE_NUMBLOCKS \<Longrightarrow> get_cache_entry_buffer (int j) = Some j"
  by (simp add: get_cache_entry_buffer_def)

lemma cached_fill_step:
  assumes "i < bound" "create_cache_entry st i = (int j, st1)" "j < CACHE_NUMBLOCKS"
  shows "cached_fill st dst sector i bound =
     (case medium st1 i of
        None \<Rightarrow> Inl (ATA_IO_error, st1)
      | Some data \<Rightarrow>
          cached_fill (st1\<lparr>cachedata := (cachedata st1)[j := data]\<rparr>)
            (if i = sector then data else dst) sector (i + 1) bound)"
  using assms
  by (subst cached_fill.simps)
     (simp add: get_cache_entry_buffer_in_range ata_receive_read_data_def split: option.splits)

lemma readblock_hit:
  assumes "s \<noteq> NOT 0" "find_cache_scan (cacheaddr st) s 0 CACHE_NUMBLOCKS = Some i"
  shows "ata_readblock st dst s =
     Inr (st\<lparr>cacheticks := cacheticks st + 1,
             cachetick := (cachetick st)[i := cacheticks st + 1]\<rparr>, cachedata st ! i)"
proof -
  have "i < CACHE_NUMBLOCKS"
    using assms(2) by (simp add: find_cache_scan_Some)
  then show ?thesis
    unfolding ata_readblock_def ata_readblock2_def
    by (simp add: find_cache_entry_hit [OF assms] get_cache_entry_buffer_in_range)
qed

lemma word32_less_succ:
  fixes s :: u32
  assumes "s \<noteq> NOT 0"
  shows "s < s + 1"
proof -
  have "1 + s \<noteq> 0"
  proof
    assume "1 + s = 0"
    then have "s = - 1"
      by (simp add: add_eq_0_iff)
    with assms show False
      by simp
  qed
  then have "unat (1 + s) = Suc (unat s)"
    by (rule unatSuc)
  then show ?thesis
    by (simp add: word_less_nat_alt add.commute)
qed

subsection \<open>Cache invariants\<close>

lemma addr_unique_update:
  assumes "addr_unique addr" "j < CACHE_NUMBLOCKS" "length addr = CACHE_NUMBLOCKS"
    and "s = NOT 0 \<or> (\<forall>i. i < CACHE_NUMBLOCKS \<longrightarrow> addr ! i \<noteq> s)"
  shows "addr_unique (addr[j := s])"
  unfolding addr_unique_def
proof (intro ballI impI)
  fix a b
  assume a: "a \<in> {0..<CACHE_NUMBLOCKS}" and b: "b \<in> {0..<CACHE_NUMBLOCKS}"
    and eq: "a \<noteq> b \<and> addr[j := s] ! a = addr[j := s] ! b"
  show "addr[j := s] ! a = NOT 0"
  proof (cases "a = j")
    case True
    have "addr[j := s] ! a = s"
      using True assms(2,3) by simp
    moreover have "addr[j := s] ! b = addr ! b"
      using True eq by simp
    ultimately have "addr ! b = s"
      using eq by simp
    then have "s = NOT 0"
      using assms(4) b by auto
    then show ?thesis
      using True assms(2,3) by simp
  next
    case False
    show ?thesis
    proof (cases "b = j")
      case True
      have "addr[j := s] ! b = s"
        using True assms(2,3) by simp
      moreover have "addr[j := s] ! a = addr ! a"
        using False by simp
      ultimately have "addr ! a = s"
        using eq by simp
      then have "s = NOT 0"
        using assms(4) a by auto
      then show ?thesis
        using \<open>addr ! a = s\<close> False by simp
    next
      case bj: False
      have "addr ! a = addr ! b"
        using eq False bj by simp
      then have "addr ! a = NOT 0"
        using assms(1) a b eq unfolding addr_unique_def by blast
      then show ?thesis
        using False by simp
    qed
  qed
qed

lemma find_cache_entry_inv:
  "cacheaddr (snd (find_cache_entry st s)) = cacheaddr st"
  "cachedata (snd (find_cache_entry st s)) = cachedata st"
  "length (cachetick (snd (find_cache_entry st s))) = length (cachetick st)"
  by (simp_all add: find_cache_entry_def split: option.splits)

lemma find_cache_entry_cases [case_names miss hit]:
  obtains (miss) "find_cache_entry st s = (- 1, st)"
      "s = NOT 0 \<or> find_cache_scan (cacheaddr st) s 0 CACHE_NUMBLOCKS = None"
  | (hit) i where "s \<noteq> NOT 0" "find_cache_scan (cacheaddr st) s 0 CACHE_NUMBLOCKS = Some i"
      "find_cache_entry st s =
        (int i, st\<lparr>cacheticks := cacheticks st + 1,
                   cachetick := (cachetick st)[i := cacheticks st + 1]\<rparr>)"
  by (cases "find_cache_scan (cacheaddr st) s 0 CACHE_NUMBLOCKS")
     (auto simp: find_cache_entry_def)

lemma create_cache_entry_inv:
  assumes "cache_wf st" "cache_unique st"
  shows "cache_wf (snd (create_cache_entry st s)) \<and> cache_unique (snd (create_cache_entry st s))"
proof -
  show ?thesis
  proof (cases rule: find_cache_entry_cases [of st s])
    case miss
    note f = miss(1) and m = miss(2)
    have fresh: "s = NOT 0 \<or> (\<forall>i. i < CACHE_NUMBLOCKS \<longrightarrow> cacheaddr st ! i \<noteq> s)"
      using m by (auto simp: find_cache_scan_None)
    have "addr_unique ((cacheaddr st)[lru_scan (cachetick st) 0 0 CACHE_NUMBLOCKS := s])"
      using assms lru_scan_in_range fresh
      by (intro addr_unique_update) (simp_all add: cache_unique_def cache_wf_def)
    then show ?thesis
      using assms(1) by (simp add: create_cache_entry_miss [OF f] cache_wf_def cache_unique_def)
  next
    case (hit i)
    note s = hit(1) and h = hit(2) and f = hit(3)
    have "cacheaddr st ! i = s"
      using h by (simp add: find_cache_scan_Some)
    then have "(cacheaddr st)[i := s] = cacheaddr st"
      by (metis list_update_id)
    then show ?thesis
      using assms by (simp add: create_cache_entry_hit [OF f] cache_wf_def cache_unique_def)
  qed
qed

lemma cached_fill_inv:
  "cache_wf st \<Longrightarrow> cache_unique st \<Longrightarrow>
   cache_wf (final_state (cached_fill st dst sector i bound)) \<and>
   cache_unique (final_state (cached_fill st dst sector i bound))"
proof (induction st dst sector i bound rule: cached_fill.induct)
  case (1 st dst sector i bound)
  show ?case
  proof (cases "i < bound")
    case False
    then show ?thesis
      using "1.prems" by (simp add: cached_fill_done final_state_def)
  next
    case True
    obtain ci st1 where c: "create_cache_entry st i = (ci, st1)"
      by (cases "create_cache_entry st i")
    have inv1: "cache_wf st1" "cache_unique st1"
      using create_cache_entry_inv [OF "1.prems", of i] c by simp_all
    show ?thesis
    proof (cases "get_cache_entry_buffer ci")
      case None
      then show ?thesis
        using True c inv1 by (subst (1 2) cached_fill.simps) (simp add: final_state_def)
    next
      case (Some slot)
      show ?thesis
      proof (cases "ata_receive_read_data st1 i")
        case (Inl e)
        then show ?thesis
          using True c inv1 Some receive_Inl [OF Inl]
          by (subst (1 2) cached_fill.simps) (simp add: final_state_def)
      next
        case (Inr data)
        have "cache_wf (st1\<lparr>cachedata := (cachedata st1)[slot := data]\<rparr>)"
          "cache_unique (st1\<lparr>cachedata := (cachedata st1)[slot := data]\<rparr>)"
          using inv1 by (simp_all add: cache_wf_def cache_unique_def)
        then show ?thesis
          using True c Some Inr "1.IH" [OF True c [symmetric] Some Inr]
          by (subst (1 2) cached_fill.simps) simp
      qed
    qed
  qed
qed

lemma readblock_inv:
  assumes "cache_wf st" "cache_unique st"
  shows "cache_wf (final_state (ata_readblock st dst s)) \<and>
         cache_unique (final_state (ata_readblock st dst s))"
proof -
  define k where "k = unat (dev_alignment_log2 st)"
  define lba where "lba = s AND NOT (push_bit k (1 :: u32) - 1)"
  define cnt where "cnt = (ucast (push_bit k (1 :: u32)) :: u16)"
  define st1 where "st1 = ata_send_read_command st lba cnt"
  have inv1: "cache_wf st1" "cache_unique st1"
    using assms by (simp_all add: st1_def cache_wf_def cache_unique_def send_read_command_cache)
  note cf = cached_fill_inv [OF inv1, of dst s lba "lba + ucast cnt"]
  show ?thesis
  proof (cases rule: find_cache_entry_cases [of st s])
    case miss
    note f = miss(1)
    have "ata_readblock st dst s =
      (if dev_lba48 st = 0 \<and> 0x0FFFFFFF < s then Inl (Out_of_bounds_read, st)
       else case cached_fill st1 dst s lba (lba + ucast cnt) of
              Inl e \<Rightarrow> Inl e
            | Inr (st2, dst') \<Rightarrow> Inr (st2\<lparr>cacheticks := cacheticks st2 + 1\<rparr>, dst'))"
      unfolding ata_readblock_def ata_readblock2_def
      by (simp add: f Let_def k_def lba_def cnt_def st1_def)
    then show ?thesis
      using assms cf
      by (auto simp: final_state_def cache_wf_def cache_unique_def split: sum.splits)
  next
    case (hit i)
    note s = hit(1) and h = hit(2)
    show ?thesis
      using assms by (simp add: readblock_hit [OF s h] final_state_def cache_wf_def cache_unique_def)
  qed
qed

lemma cached_reads_inv:
  "cache_wf st \<Longrightarrow> cache_unique st \<Longrightarrow> cached_reads st dst ss = Inr (st', d) \<Longrightarrow>
   cache_wf st' \<and> cache_unique st'"
proof (induction ss arbitrary: st dst)
  case Nil
  then show ?case by simp
next
  case (Cons s ss)
  from Cons.prems(3) obtain st1 d1 where r: "ata_readblock st dst s = Inr (st1, d1)"
    and rest: "cached_reads st1 d1 ss = Inr (st', d)"
    by (auto split: sum.splits)
  have "cache_wf st1 \<and> cache_unique st1"
    using readblock_inv [OF Cons.prems(1,2), of dst s] r by (simp add: final_state_def)
  then show ?case
    using Cons.IH rest by blast
qed

lemma boot_state_inv: "cache_wf (ata_boot_state a k m) \<and> cache_unique (ata_boot_state a k m)"
  by (simp add: cache_wf_def cache_unique_def addr_unique_def ata_boot_state_def clear_cache_def)

subsection \<open>The tick counter and the eviction choice\<close>

lemma create_cache_entry_ticks:
  "cacheticks (snd (create_cache_entry st s)) = cacheticks st \<or>
   cacheticks (snd (create_cache_entry st s)) = cacheticks st + 1"
  by (cases rule: find_cache_entry_cases [of st s])
     (simp_all add: create_cache_entry_miss create_cache_entry_hit)

lemma cached_fill_ticks:
  "cached_fill st dst sector i bound = Inr (st', d) \<Longrightarrow>
   \<exists>h. h \<le> unat bound - unat i \<and> cacheticks st' = cacheticks st + of_nat h"
proof (induction st dst sector i bound rule: cached_fill.induct)
  case (1 st dst sector i bound)
  show ?case
  proof (cases "i < bound")
    case False
    then have "st' = st"
      using "1.prems" by (simp add: cached_fill_done)
    then show ?thesis
      by (intro exI [of _ 0]) simp
  next
    case True
    obtain ci st1 where c: "create_cache_entry st i = (ci, st1)"
      by (cases "create_cache_entry st i")
    have t1: "cacheticks st1 = cacheticks st \<or> cacheticks st1 = cacheticks st + 1"
      using create_cache_entry_ticks [of st i] c by simp
    from "1.prems" True c obtain slot data where
      slot: "get_cache_entry_buffer ci = Some slot"
      and data: "ata_receive_read_data st1 i = Inr data"
      and rest: "cached_fill (st1\<lparr>cachedata := (cachedata st1)[slot := data]\<rparr>)
                   (if i = sector then data else dst) sector (i + 1) bound = Inr (st', d)"
      by (subst (asm) cached_fill.simps) (auto split: option.splits sum.splits)
    from "1.IH" [OF True c [symmetric] slot data rest]
    obtain h where h: "h \<le> unat bound - unat (i + 1)" "cacheticks st' = cacheticks st1 + of_nat h"
      by auto
    have lt: "unat i < unat bound"
      using True by (simp add: word_less_nat_alt)
    have "unat (i + 1) = Suc (unat i)"
      using True by (rule word32_succ_unat)
    then have h': "Suc h \<le> unat bound - unat i"
      using h(1) lt by simp
    from t1 show ?thesis
    proof
      assume "cacheticks st1 = cacheticks st"
      then have "h \<le> unat bound - unat i \<and> cacheticks st' = cacheticks st + of_nat h"
        using h h' by simp
      then show ?thesis by blast
    next
      assume "cacheticks st1 = cacheticks st + 1"
      then have "Suc h \<le> unat bound - unat i \<and> cacheticks st' = cacheticks st + of_nat (Suc h)"
        using h h' by simp
      then show ?thesis by blast
    qed
  qed
qed

lemma run_length_bound:
  fixes lba :: u32 and cnt :: u16
  shows "unat (lba + ucast cnt) - unat lba < 65536"
proof -
  have "unat (ucast cnt :: u32) \<le> unat cnt"
    by (simp add: unsigned_ucast_eq take_bit_nat_less_eq_self)
  moreover have "unat cnt < 65536"
    using unsigned_less [of cnt, where ?'a = nat] by simp
  moreover have "unat (lba + ucast cnt) \<le> unat lba + unat (ucast cnt :: u32)"
    by (simp add: unat_word_ariths)
  ultimately show ?thesis
    by simp
qed

lemma word32_add_small:
  fixes t :: u32
  assumes "t < 0xFFFF0000" "0 < n" "n \<le> 65536"
  shows "t < t + of_nat n"
proof -
  have t: "unat t < 4294901760"
    using assms(1) by (simp add: word_less_nat_alt)
  have "unat (of_nat n :: u32) = n"
    using assms(3) by (simp add: unat_of_nat)
  moreover from this t assms(3) have "unat t + unat (of_nat n :: u32) < 2 ^ LENGTH(32)"
    by simp
  then have "unat (t + of_nat n) = unat t + unat (of_nat n :: u32)"
    by (simp only: unat_add_lem)
  ultimately show ?thesis
    using assms(2) by (simp add: word_less_nat_alt)
qed

lemma readblock_ticks:
  assumes "ata_readblock st dst s = Inr (st', d)"
  shows "\<exists>n. 0 < n \<and> n \<le> 65536 \<and> cacheticks st' = cacheticks st + of_nat n"
proof (cases rule: find_cache_entry_cases [of st s])
  case miss
  define k where "k = unat (dev_alignment_log2 st)"
  define lba where "lba = s AND NOT (push_bit k (1 :: u32) - 1)"
  define cnt where "cnt = (ucast (push_bit k (1 :: u32)) :: u16)"
  define st1 where "st1 = ata_send_read_command st lba cnt"
  have "ata_readblock st dst s =
      (if dev_lba48 st = 0 \<and> 0x0FFFFFFF < s then Inl (Out_of_bounds_read, st)
       else case cached_fill st1 dst s lba (lba + ucast cnt) of
              Inl e \<Rightarrow> Inl e
            | Inr (st2, dst') \<Rightarrow> Inr (st2\<lparr>cacheticks := cacheticks st2 + 1\<rparr>, dst'))"
    unfolding ata_readblock_def ata_readblock2_def
    by (simp add: miss(1) Let_def k_def lba_def cnt_def st1_def)
  with assms obtain st2 where cf: "cached_fill st1 dst s lba (lba + ucast cnt) = Inr (st2, d)"
    and st': "st' = st2\<lparr>cacheticks := cacheticks st2 + 1\<rparr>"
    by (auto split: if_splits sum.splits)
  from cached_fill_ticks [OF cf] obtain h where
    h: "h \<le> unat (lba + ucast cnt) - unat lba" "cacheticks st2 = cacheticks st1 + of_nat h"
    by blast
  have "h < 65536"
    using h(1) run_length_bound [of lba cnt] by simp
  then have "0 < Suc h \<and> Suc h \<le> 65536 \<and> cacheticks st' = cacheticks st + of_nat (Suc h)"
    using h(2) by (simp add: st' st1_def send_read_command_cache)
  then show ?thesis
    by blast
next
  case (hit i)
  have "cacheticks st' = cacheticks st + of_nat 1"
    using assms readblock_hit [OF hit(1,2), of dst] by auto
  then show ?thesis
    by (intro exI [of _ 1]) simp
qed

lemma eviction_picks_lowest_tick:
  assumes "fst (find_cache_entry st s) < 0"
  shows "create_cache_entry st s =
     (int (lru_scan (cachetick st) 0 0 CACHE_NUMBLOCKS),
      st\<lparr>cacheaddr := (cacheaddr st)[lru_scan (cachetick st) 0 0 CACHE_NUMBLOCKS := s],
         cachetick := (cachetick st)[lru_scan (cachetick st) 0 0 CACHE_NUMBLOCKS := cacheticks st]\<rparr>)"
proof (cases rule: find_cache_entry_cases [of st s])
  case miss
  then show ?thesis
    by (simp add: create_cache_entry_miss)
next
  case (hit i)
  then show ?thesis
    using assms by simp
qed

text \<open>
  Claim C4. (1) The cache starts out well-formed with no valid sector in two slots, and
  any sequence of cached reads that completes keeps it so: at most one slot maps to a
  given valid sector number. (2) When \<open>create_cache_entry\<close> finds the sector in no slot,
  the slot it chooses is one of the \<open>CACHE_NUMBLOCKS\<close> slots whose tick is lowest among
  all of them, and that slot then maps to the sector. (3) The tick counter goes up on a
  hit (by exactly one) and on a fill: every completed cached read leaves it strictly
  higher, as long as the 32-bit counter is not within 65536 of wrapping around.
\<close>

theorem cache_unique_and_lru_eviction:
  "(cache_wf (ata_boot_state a k m) \<and> cache_unique (ata_boot_state a k m)) \<and>
   (cache_wf st0 \<and> cache_unique st0 \<and> cached_reads st0 dst0 sectors = Inr (st1, d1) \<longrightarrow>
      cache_unique st1) \<and>
   (fst (find_cache_entry st s) < 0 \<longrightarrow>
      (case create_cache_entry st s of
         (ci, st') \<Rightarrow>
           0 \<le> ci \<and> ci < int CACHE_NUMBLOCKS \<and>
           (\<forall>j < CACHE_NUMBLOCKS. cachetick st ! nat ci \<le> cachetick st ! j) \<and>
           (cache_wf st \<longrightarrow> cacheaddr st' ! nat ci = s))) \<and>
   (s \<noteq> NOT 0 \<and> find_cache_scan (cacheaddr st) s 0 CACHE_NUMBLOCKS = Some i \<longrightarrow>
      cacheticks (final_state (ata_readblock st dst s)) = cacheticks st + 1) \<and>
   (cacheticks st < 0xFFFF0000 \<and> ata_readblock st dst s = Inr (st2, d2) \<longrightarrow>
      cacheticks st < cacheticks st2)"
proof (intro conjI impI)
  show "cache_wf (ata_boot_state a k m)" "cache_unique (ata_boot_state a k m)"
    using boot_state_inv [of a k m] by simp_all
next
  assume "cache_wf st0 \<and> cache_unique st0 \<and> cached_reads st0 dst0 sectors = Inr (st1, d1)"
  then show "cache_unique st1"
    using cached_reads_inv [of st0 dst0 sectors st1 d1] by simp
next
  assume miss: "fst (find_cache_entry st s) < 0"
  define j where "j = lru_scan (cachetick st) 0 0 CACHE_NUMBLOCKS"
  have j: "j < CACHE_NUMBLOCKS"
    unfolding j_def by (rule lru_scan_in_range)
  have least: "\<forall>j' < CACHE_NUMBLOCKS. cachetick st ! j \<le> cachetick st ! j'"
    unfolding j_def using lru_scan_least by blast
  have c: "create_cache_entry st s =
     (int j, st\<lparr>cacheaddr := (cacheaddr st)[j := s],
               cachetick := (cachetick st)[j := cacheticks st]\<rparr>)"
    unfolding j_def by (rule eviction_picks_lowest_tick [OF miss])
  show "case create_cache_entry st s of
         (ci, st') \<Rightarrow>
           0 \<le> ci \<and> ci < int CACHE_NUMBLOCKS \<and>
           (\<forall>j < CACHE_NUMBLOCKS. cachetick st ! nat ci \<le> cachetick st ! j) \<and>
           (cache_wf st \<longrightarrow> cacheaddr st' ! nat ci = s)"
    unfolding c using j least by (simp add: cache_wf_def)
next
  assume "s \<noteq> NOT 0 \<and> find_cache_scan (cacheaddr st) s 0 CACHE_NUMBLOCKS = Some i"
  then show "cacheticks (final_state (ata_readblock st dst s)) = cacheticks st + 1"
    using readblock_hit [of s st i dst] by (simp add: final_state_def)
next
  assume a: "cacheticks st < 0xFFFF0000 \<and> ata_readblock st dst s = Inr (st2, d2)"
  then obtain n where "0 < n" "n \<le> 65536" "cacheticks st2 = cacheticks st + of_nat n"
    using readblock_ticks [of st dst s st2 d2] by blast
  then show "cacheticks st < cacheticks st2"
    using a word32_add_small [of "cacheticks st" n] by simp
qed

text \<open>
  On a freshly cleared cache, sectors 1 to 17 are read and sector 2 is read again (a
  hit). All sixteen slots then hold distinct sectors; slot 0 holds sector 2, the oldest
  entry but the most recently touched. Reading sector 100 evicts slot 1 (sector 3), the
  slot with the lowest tick.
\<close>

theorem cache_unique_and_lru_eviction_witness:
  "case cached_reads (ata_boot_state 0 0 (\<lambda>s. Some [ucast s])) []
          [1, 2, 3, 4, 5, 6, 7, 8, 9, 10, 11, 12, 13, 14, 15, 16, 17, 2] of
     Inl e \<Rightarrow> False
   | Inr (st, d) \<Rightarrow>
       cache_wf st \<and> cache_unique st \<and>
       cacheaddr st = [2, 3, 4, 5, 6, 7, 8, 9, 10, 11, 12, 13, 14, 15, 16, 17] \<and>
       fst (find_cache_entry st 100) < 0 \<and>
       fst (create_cache_entry st 100) = 1 \<and>
       (\<forall>j < CACHE_NUMBLOCKS. cachetick st ! 1 \<le> cachetick st ! j) \<and>
       cacheaddr (snd (create_cache_entry st 100)) ! 1 = 100 \<and>
       find_cache_scan (cacheaddr st) 2 0 CACHE_NUMBLOCKS = Some 0 \<and>
       cacheticks (final_state (ata_readblock st [] 2)) = cacheticks st + 1 \<and>
       cacheticks st < 0xFFFF0000 \<and>
       (case ata_readblock st [] 100 of
          Inl e \<Rightarrow> False
        | Inr (st2, d2) \<Rightarrow> cacheticks st < cacheticks st2)"
proof -
  let ?B = "ata_boot_state 0 0 (\<lambda>s. Some [ucast s])"
  let ?L = "[1, 2, 3, 4, 5, 6, 7, 8, 9, 10, 11, 12, 13, 14, 15, 16, 17, 2] :: u32 list"
  have ev: "case cached_reads ?B [] ?L of
     Inl e \<Rightarrow> False
   | Inr (st, d) \<Rightarrow>
       cache_wf st \<and>
       cacheaddr st = [2, 3, 4, 5, 6, 7, 8, 9, 10, 11, 12, 13, 14, 15, 16, 17] \<and>
       fst (find_cache_entry st 100) < 0 \<and>
       fst (create_cache_entry st 100) = 1 \<and>
       find_cache_scan (cacheaddr st) 2 0 CACHE_NUMBLOCKS = Some 0 \<and>
       cacheticks st < 0xFFFF0000 \<and>
       (case ata_readblock st [] 100 of Inl e \<Rightarrow> False | Inr (st2, d2) \<Rightarrow> True)"
    by code_simp
  then obtain st d where run: "cached_reads ?B [] ?L = Inr (st, d)"
    by (auto split: sum.splits)
  note ev' = ev [unfolded run sum.case prod.case]
  from ev' have wf: "cache_wf st"
    and addr: "cacheaddr st = [2, 3, 4, 5, 6, 7, 8, 9, 10, 11, 12, 13, 14, 15, 16, 17]"
    and miss: "fst (find_cache_entry st 100) < 0"
    and idx: "fst (create_cache_entry st 100) = 1"
    and hit: "find_cache_scan (cacheaddr st) 2 0 CACHE_NUMBLOCKS = Some 0"
    and low: "cacheticks st < 0xFFFF0000"
    by blast+
  from ev' have "case ata_readblock st [] 100 of Inl e \<Rightarrow> False | Inr (st2, d2) \<Rightarrow> True"
    by blast
  then obtain st2 d2 where fill: "ata_readblock st [] 100 = Inr (st2, d2)"
    by (cases "ata_readblock st [] 100") auto
  obtain ci st' where c: "create_cache_entry st 100 = (ci, st')"
    by (cases "create_cache_entry st 100")
  have ci: "ci = 1"
    using idx c by simp
  note T = cache_unique_and_lru_eviction
    [where a = 0 and k = 0 and m = "\<lambda>s. Some [ucast s]" and ?st0.0 = ?B and ?dst0.0 = "[]"
       and sectors = ?L and ?st1.0 = st and ?d1.0 = d and st = st and s = 100 and dst = "[]"
       and ?st2.0 = st2 and ?d2.0 = d2 and i = 0]
  have u: "cache_unique st"
    using T run by blast
  have ev2: "(\<forall>j < CACHE_NUMBLOCKS. cachetick st ! 1 \<le> cachetick st ! j) \<and>
             cacheaddr st' ! 1 = 100"
    using T miss wf c ci by simp
  have tick_fill: "cacheticks st < cacheticks st2"
    using T low fill by blast
  have tick_hit: "cacheticks (final_state (ata_readblock st [] 2)) = cacheticks st + 1"
    using cache_unique_and_lru_eviction
      [where st = st and s = 2 and dst = "[]" and i = 0] hit by simp
  have last: "case ata_readblock st [] 100 of
          Inl e \<Rightarrow> False
        | Inr (st2, d2) \<Rightarrow> cacheticks st < cacheticks st2"
    unfolding fill sum.case prod.case by (rule tick_fill)
  have ca: "cacheaddr (snd (create_cache_entry st 100)) ! 1 = 100"
    unfolding c snd_conv using ev2 by blast
  have big: "cache_wf st \<and> cache_unique st \<and>
       cacheaddr st = [2, 3, 4, 5, 6, 7, 8, 9, 10, 11, 12, 13, 14, 15, 16, 17] \<and>
       fst (find_cache_entry st 100) < 0 \<and>
       fst (create_cache_entry st 100) = 1 \<and>
       (\<forall>j < CACHE_NUMBLOCKS. cachetick st ! 1 \<le> cachetick st ! j) \<and>
       cacheaddr (snd (create_cache_entry st 100)) ! 1 = 100 \<and>
       find_cache_scan (cacheaddr st) 2 0 CACHE_NUMBLOCKS = Some 0 \<and>
       cacheticks (final_state (ata_readblock st [] 2)) = cacheticks st + 1 \<and>
       cacheticks st < 0xFFFF0000 \<and>
       (case ata_readblock st [] 100 of
          Inl e \<Rightarrow> False
        | Inr (st2, d2) \<Rightarrow> cacheticks st < cacheticks st2)"
    using wf u addr miss idx ev2 ca hit tick_hit low last by blast
  show ?thesis
    unfolding run sum.case prod.case by (rule big)
qed

subsection \<open>Reading a sector twice\<close>

text \<open>
  A miss with one block per physical sector (\<open>alignment_log2 = 0\<close>): the run is the
  requested block alone.
\<close>

lemma readblock_miss_unaligned:
  assumes k: "dev_alignment_log2 st = 0" and s: "s \<noteq> NOT 0"
    and miss: "find_cache_scan (cacheaddr st) s 0 CACHE_NUMBLOCKS = None"
    and ok: "ata_readblock st dst s = Inr (st', d)"
  shows "medium st s = Some d \<and>
     st' = (ata_send_read_command st s 1)
       \<lparr>cacheaddr := (cacheaddr st)[lru_scan (cachetick st) 0 0 CACHE_NUMBLOCKS := s],
        cachetick := (cachetick st)[lru_scan (cachetick st) 0 0 CACHE_NUMBLOCKS := cacheticks st],
        cachedata := (cachedata st)[lru_scan (cachetick st) 0 0 CACHE_NUMBLOCKS := d],
        cacheticks := cacheticks st + 1\<rparr>"
proof -
  define j where "j = lru_scan (cachetick st) 0 0 CACHE_NUMBLOCKS"
  define st1 where "st1 = ata_send_read_command st s 1"
  define st2 where "st2 = st1\<lparr>cacheaddr := (cacheaddr st1)[j := s],
                              cachetick := (cachetick st1)[j := cacheticks st1]\<rparr>"
  have j: "j < CACHE_NUMBLOCKS"
    unfolding j_def by (rule lru_scan_in_range)
  have f0: "find_cache_entry st s = (- 1, st)"
    using miss by (rule find_cache_entry_miss)
  have "find_cache_scan (cacheaddr st1) s 0 CACHE_NUMBLOCKS = None"
    using miss by (simp add: st1_def send_read_command_cache)
  then have f1: "find_cache_entry st1 s = (- 1, st1)"
    by (rule find_cache_entry_miss)
  have c1: "create_cache_entry st1 s = (int j, st2)"
    using create_cache_entry_miss [OF f1]
    by (simp add: st2_def j_def st1_def send_read_command_cache)
  have lt: "s < s + 1"
    using s by (rule word32_less_succ)
  have m2: "medium st2 s = medium st s"
    by (simp add: st2_def st1_def send_read_command_issued)
  have step: "cached_fill st1 dst s s (s + 1) =
     (case medium st s of
        None \<Rightarrow> Inl (ATA_IO_error, st2)
      | Some data \<Rightarrow> Inr (st2\<lparr>cachedata := (cachedata st2)[j := data]\<rparr>, data))"
    by (subst cached_fill_step [OF lt c1 j])
       (simp add: m2 cached_fill_done split: option.splits)
  have unfolded: "ata_readblock st dst s =
     (if dev_lba48 st = 0 \<and> 0x0FFFFFFF < s then Inl (Out_of_bounds_read, st)
      else case cached_fill st1 dst s s (s + 1) of
             Inl e \<Rightarrow> Inl e
           | Inr (st3, dst') \<Rightarrow> Inr (st3\<lparr>cacheticks := cacheticks st3 + 1\<rparr>, dst'))"
    unfolding ata_readblock_def ata_readblock2_def
    by (simp add: f0 k Let_def st1_def)
  from ok obtain data where d: "medium st s = Some data"
    and r: "Inr (st', d) = (Inr (st2\<lparr>cachedata := (cachedata st2)[j := data],
                                     cacheticks := cacheticks st2 + 1\<rparr>, data)
                           :: (ata_state \<times> block) outcome)"
    unfolding unfolded step by (auto split: if_splits option.splits)
  from r have "d = data" and "st' = st2\<lparr>cachedata := (cachedata st2)[j := data],
                                     cacheticks := cacheticks st2 + 1\<rparr>"
    by simp_all
  then show ?thesis
    using d by (simp add: st2_def st1_def j_def send_read_command_cache)
qed

subsection \<open>Slots older than the run\<close>

lemma older_than_update:
  "older_than t ticks \<le> Suc (older_than t (ticks[j := v]))"
proof (induction ticks arbitrary: j)
  case Nil
  show ?case by (simp add: older_than_def)
next
  case (Cons x xs)
  show ?case
  proof (cases j)
    case 0
    then show ?thesis by (simp add: older_than_def)
  next
    case (Suc j')
    with Cons.IH [of j'] show ?thesis by (simp add: older_than_def)
  qed
qed

lemma older_than_exists:
  assumes "0 < older_than t ticks"
  shows "\<exists>j < length ticks. ticks ! j < t"
proof -
  from assms have "filter (\<lambda>x. x < t) ticks \<noteq> []"
    by (auto simp: older_than_def)
  then obtain x where "x \<in> set ticks" "x < t"
    by (auto simp: filter_empty_conv)
  then show ?thesis
    by (auto simp: in_set_conv_nth)
qed

lemma older_than_all:
  assumes "list_all (\<lambda>x. x < t) ticks"
  shows "older_than t ticks = length ticks"
  using assms by (induction ticks) (simp_all add: older_than_def)

text \<open>
  One \<open>create_cache_entry\<close>: the slot it returns holds the sector already, or is the one
  the eviction scan picks; the slot gets the sector and the tick counter, which has gone
  up by one on a hit.
\<close>

lemma create_cache_entry_step:
  assumes wf: "cache_wf st"
  obtains l st1 where "create_cache_entry st i = (int l, st1)" "l < CACHE_NUMBLOCKS"
    "cacheaddr st1 = (cacheaddr st)[l := i]" "cachedata st1 = cachedata st"
    "cachetick st1 = (cachetick st)[l := cacheticks st1]"
    "cacheticks st1 = cacheticks st \<or> cacheticks st1 = cacheticks st + 1"
    "cacheaddr st ! l = i \<or> l = lru_scan (cachetick st) 0 0 CACHE_NUMBLOCKS"
    "medium st1 = medium st" "cache_wf st1"
proof (cases rule: find_cache_entry_cases [of st i])
  case miss
  define l where "l = lru_scan (cachetick st) 0 0 CACHE_NUMBLOCKS"
  define st1 where "st1 = st\<lparr>cacheaddr := (cacheaddr st)[l := i],
                              cachetick := (cachetick st)[l := cacheticks st]\<rparr>"
  have "create_cache_entry st i = (int l, st1)"
    unfolding l_def st1_def by (rule create_cache_entry_miss [OF miss(1)])
  moreover have "l < CACHE_NUMBLOCKS"
    unfolding l_def by (rule lru_scan_in_range)
  ultimately show ?thesis
    using wf by (intro that [of l st1]) (simp_all add: st1_def l_def cache_wf_def)
next
  case (hit h)
  have h: "h < CACHE_NUMBLOCKS" "cacheaddr st ! h = i"
    using hit(2) by (simp_all add: find_cache_scan_Some)
  define st0 where "st0 = st\<lparr>cacheticks := cacheticks st + 1,
                              cachetick := (cachetick st)[h := cacheticks st + 1]\<rparr>"
  define st1 where "st1 = st0\<lparr>cacheaddr := (cacheaddr st0)[h := i],
                               cachetick := (cachetick st0)[h := cacheticks st0]\<rparr>"
  have "create_cache_entry st i = (int h, st1)"
    unfolding st1_def st0_def
    using create_cache_entry_hit [OF hit(3)] by simp
  then show ?thesis
    using wf h by (intro that [of h st1]) (simp_all add: st1_def st0_def cache_wf_def)
qed

lemma tick_step:
  fixes ct :: u32
  assumes "t0 \<le> ct" "unat ct + m < 2 ^ 32" "0 < m" "ct1 = ct \<or> ct1 = ct + 1"
  shows "t0 \<le> ct1 \<and> unat ct1 + (m - 1) < 2 ^ 32"
proof -
  have "unat ct + unat (1 :: u32) < 2 ^ LENGTH(32)"
    using assms(2,3) by simp
  then have "unat (ct + 1) = unat ct + unat (1 :: u32)"
    by (simp only: unat_add_lem)
  then have u: "unat (ct + 1) = Suc (unat ct)"
    by simp
  from assms(4) show ?thesis
  proof
    assume "ct1 = ct"
    with assms show ?thesis by simp
  next
    assume "ct1 = ct + 1"
    with assms u show ?thesis by (simp add: word_le_nat_alt)
  qed
qed

text \<open>
  The rest of a run behind the requested block: while every block still to come finds a
  slot older than the run, the slot holding the requested block is left alone.
\<close>

lemma cached_fill_keeps:
  assumes "n = unat bound - unat i"
    and "cached_fill st dst s i bound = Inr (st', d')"
    and "cache_wf st" and "t0 \<le> cacheticks st"
    and "unat (cacheticks st) + n < 2 ^ 32"
    and "n \<le> older_than t0 (cachetick st)"
    and "s < i" and "j < CACHE_NUMBLOCKS" and "cacheaddr st ! j = s"
    and "\<forall>j' < CACHE_NUMBLOCKS. cacheaddr st ! j' = s \<longrightarrow> j' = j"
    and "t0 \<le> cachetick st ! j"
  shows "cache_wf st' \<and> d' = dst \<and> cacheaddr st' ! j = s \<and>
         (\<forall>j' < CACHE_NUMBLOCKS. cacheaddr st' ! j' = s \<longrightarrow> j' = j) \<and>
         cachedata st' ! j = cachedata st ! j"
  using assms
proof (induction n arbitrary: st dst i)
  case 0
  from "0.prems"(1) have "\<not> i < bound"
    by (simp add: word_less_nat_alt)
  then have "cached_fill st dst s i bound = Inr (st, dst)"
    by (rule cached_fill_done)
  with "0.prems"(2) have "st' = st" "d' = dst" by simp_all
  with "0.prems"(3,9,10) show ?case by simp
next
  case (Suc n)
  from Suc.prems(1) have lt: "i < bound"
    by (simp add: word_less_nat_alt)
  have succ: "unat (i + 1) = Suc (unat i)"
    using lt by (rule word32_succ_unat)
  have n: "n = unat bound - unat (i + 1)"
    using Suc.prems(1) succ by simp
  have si: "s \<noteq> i" "s < i + 1"
    using Suc.prems(7) succ by (auto simp: word_less_nat_alt)
  note wf = Suc.prems(3)
  show ?case
  proof (rule create_cache_entry_step [OF wf, of i])
  fix l st1
  assume c: "create_cache_entry st i = (int l, st1)" and l: "l < CACHE_NUMBLOCKS"
    and a1: "cacheaddr st1 = (cacheaddr st)[l := i]" and d1: "cachedata st1 = cachedata st"
    and t1: "cachetick st1 = (cachetick st)[l := cacheticks st1]"
    and ct1: "cacheticks st1 = cacheticks st \<or> cacheticks st1 = cacheticks st + 1"
    and why: "cacheaddr st ! l = i \<or> l = lru_scan (cachetick st) 0 0 CACHE_NUMBLOCKS"
    and m1: "medium st1 = medium st" and wf1: "cache_wf st1"
  have lens: "length (cacheaddr st) = CACHE_NUMBLOCKS" "length (cachetick st) = CACHE_NUMBLOCKS"
    "length (cachedata st) = CACHE_NUMBLOCKS"
    using wf by (simp_all add: cache_wf_def)
  have lj: "l \<noteq> j"
  proof
    assume e: "l = j"
    from why show False
    proof
      assume "cacheaddr st ! l = i"
      with e Suc.prems(9) si(1) show False by simp
    next
      assume lru: "l = lru_scan (cachetick st) 0 0 CACHE_NUMBLOCKS"
      from Suc.prems(6) have "0 < older_than t0 (cachetick st)" by simp
      then obtain q where q: "q < length (cachetick st)" "cachetick st ! q < t0"
        using older_than_exists by blast
      have "cachetick st ! l \<le> cachetick st ! q"
        unfolding lru using q(1) lens by (intro lru_scan_least) simp
      with q(2) have "cachetick st ! l < t0" by simp
      with e Suc.prems(11) show False by simp
    qed
  qed
  note ts = tick_step [OF Suc.prems(4) Suc.prems(5) _ ct1]
  have t0': "t0 \<le> cacheticks st1" and nw': "unat (cacheticks st1) + n < 2 ^ 32"
    using ts by simp_all
  have old': "n \<le> older_than t0 (cachetick st1)"
    using Suc.prems(6) older_than_update [of t0 "cachetick st" l "cacheticks st1"]
    unfolding t1 by simp
  from Suc.prems(2) obtain data where data: "medium st1 i = Some data"
    and rest: "cached_fill (st1\<lparr>cachedata := (cachedata st1)[l := data]\<rparr>) dst s (i + 1) bound =
                 Inr (st', d')"
    unfolding cached_fill_step [OF lt c l] using si(1)
    by (auto split: option.splits)
  define st2 where "st2 = st1\<lparr>cachedata := (cachedata st1)[l := data]\<rparr>"
  have wf2: "cache_wf st2"
    using wf1 by (simp add: st2_def cache_wf_def)
  have aj: "cacheaddr st2 ! j = s"
    using lj Suc.prems(9) by (simp add: st2_def a1)
  have uq: "\<forall>j' < CACHE_NUMBLOCKS. cacheaddr st2 ! j' = s \<longrightarrow> j' = j"
  proof (intro allI impI)
    fix j' assume j': "j' < CACHE_NUMBLOCKS" and e: "cacheaddr st2 ! j' = s"
    have "j' \<noteq> l"
    proof
      assume "j' = l"
      with e l lens have "i = s" by (simp add: st2_def a1)
      with si(1) show False by simp
    qed
    with e have "cacheaddr st ! j' = s" by (simp add: st2_def a1)
    with j' Suc.prems(10) show "j' = j" by simp
  qed
  have tj: "t0 \<le> cachetick st2 ! j"
    using lj Suc.prems(11) by (simp add: st2_def t1)
  have dj: "cachedata st2 ! j = cachedata st ! j"
    using lj by (simp add: st2_def d1)
  have "cache_wf st' \<and> d' = dst \<and> cacheaddr st' ! j = s \<and>
         (\<forall>j' < CACHE_NUMBLOCKS. cacheaddr st' ! j' = s \<longrightarrow> j' = j) \<and>
         cachedata st' ! j = cachedata st2 ! j"
    using rest t0' nw' old'
    by (intro Suc.IH [OF n _ wf2 _ _ _ si(2) Suc.prems(8) aj uq tj])
       (simp_all add: st2_def)
  with dj show ?case by simp
  qed
qed

text \<open>
  A run over the requested block, which no slot holds yet: when the run is over, one
  slot and no other holds the block, with the data handed back.
\<close>

lemma cached_fill_places:
  assumes "n = unat bound - unat i"
    and "cached_fill st dst s i bound = Inr (st', d')"
    and "cache_wf st" and "t0 \<le> cacheticks st"
    and "unat (cacheticks st) + n < 2 ^ 32"
    and "n \<le> older_than t0 (cachetick st)"
    and "i \<le> s" and "s < bound"
    and "\<forall>j < CACHE_NUMBLOCKS. cacheaddr st ! j \<noteq> s"
  shows "cache_wf st' \<and>
         (\<exists>j < CACHE_NUMBLOCKS. cacheaddr st' ! j = s \<and>
           (\<forall>j' < CACHE_NUMBLOCKS. cacheaddr st' ! j' = s \<longrightarrow> j' = j) \<and>
           cachedata st' ! j = d')"
  using assms
proof (induction n arbitrary: st dst i)
  case 0
  from "0.prems"(7,8) have "i < bound" by simp
  with "0.prems"(1) show ?case by (simp add: word_less_nat_alt)
next
  case (Suc n)
  from Suc.prems(7,8) have lt: "i < bound" by simp
  have succ: "unat (i + 1) = Suc (unat i)"
    using lt by (rule word32_succ_unat)
  have n: "n = unat bound - unat (i + 1)"
    using Suc.prems(1) succ by simp
  note wf = Suc.prems(3)
  have lens: "length (cacheaddr st) = CACHE_NUMBLOCKS" "length (cachetick st) = CACHE_NUMBLOCKS"
    "length (cachedata st) = CACHE_NUMBLOCKS"
    using wf by (simp_all add: cache_wf_def)
  show ?case
  proof (rule create_cache_entry_step [OF wf, of i])
    fix l st1
    assume c: "create_cache_entry st i = (int l, st1)" and l: "l < CACHE_NUMBLOCKS"
      and a1: "cacheaddr st1 = (cacheaddr st)[l := i]" and d1: "cachedata st1 = cachedata st"
      and t1: "cachetick st1 = (cachetick st)[l := cacheticks st1]"
      and ct1: "cacheticks st1 = cacheticks st \<or> cacheticks st1 = cacheticks st + 1"
      and m1: "medium st1 = medium st" and wf1: "cache_wf st1"
    note ts = tick_step [OF Suc.prems(4) Suc.prems(5) _ ct1]
    have t0': "t0 \<le> cacheticks st1" and nw': "unat (cacheticks st1) + n < 2 ^ 32"
      using ts by simp_all
    have old': "n \<le> older_than t0 (cachetick st1)"
      using Suc.prems(6) older_than_update [of t0 "cachetick st" l "cacheticks st1"]
      unfolding t1 by simp
    from Suc.prems(2) obtain data where data: "medium st1 i = Some data"
      and rest: "cached_fill (st1\<lparr>cachedata := (cachedata st1)[l := data]\<rparr>)
                   (if i = s then data else dst) s (i + 1) bound = Inr (st', d')"
      unfolding cached_fill_step [OF lt c l]
      by (auto split: option.splits)
    define st2 where "st2 = st1\<lparr>cachedata := (cachedata st1)[l := data]\<rparr>"
    have wf2: "cache_wf st2"
      using wf1 by (simp add: st2_def cache_wf_def)
    have t02: "t0 \<le> cacheticks st2" and nw2: "unat (cacheticks st2) + n < 2 ^ 32"
      and old2: "n \<le> older_than t0 (cachetick st2)"
      using t0' nw' old' by (simp_all add: st2_def)
    show ?thesis
    proof (cases "i = s")
      case True
      have rest': "cached_fill st2 data s (i + 1) bound = Inr (st', d')"
        using rest True by (simp add: st2_def)
      have si: "s < i + 1"
        using True succ by (simp add: word_less_nat_alt)
      have al: "cacheaddr st2 ! l = s"
        using True l lens by (simp add: st2_def a1)
      have uq: "\<forall>j' < CACHE_NUMBLOCKS. cacheaddr st2 ! j' = s \<longrightarrow> j' = l"
      proof (intro allI impI)
        fix j' assume j': "j' < CACHE_NUMBLOCKS" and e: "cacheaddr st2 ! j' = s"
        show "j' = l"
        proof (rule ccontr)
          assume "j' \<noteq> l"
          with e have "cacheaddr st ! j' = s" by (simp add: st2_def a1)
          with j' Suc.prems(9) show False by simp
        qed
      qed
      have tl: "t0 \<le> cachetick st2 ! l"
        using t0' l lens by (simp add: st2_def t1)
      have dl: "cachedata st2 ! l = data"
        using l lens by (simp add: st2_def d1)
      from cached_fill_keeps [OF n rest' wf2 t02 nw2 old2 si l al uq tl]
      have k: "cache_wf st' \<and> d' = data \<and> cacheaddr st' ! l = s \<and>
            (\<forall>j' < CACHE_NUMBLOCKS. cacheaddr st' ! j' = s \<longrightarrow> j' = l) \<and>
            cachedata st' ! l = cachedata st2 ! l" .
      from k dl have "cachedata st' ! l = d'" by simp
      with k l have "l < CACHE_NUMBLOCKS \<and> cacheaddr st' ! l = s \<and>
            (\<forall>j' < CACHE_NUMBLOCKS. cacheaddr st' ! j' = s \<longrightarrow> j' = l) \<and>
            cachedata st' ! l = d'" by blast
      then have "\<exists>j < CACHE_NUMBLOCKS. cacheaddr st' ! j = s \<and>
           (\<forall>j' < CACHE_NUMBLOCKS. cacheaddr st' ! j' = s \<longrightarrow> j' = j) \<and>
           cachedata st' ! j = d'" by (rule exI [of _ l])
      with k show ?thesis by blast
    next
      case False
      have rest': "cached_fill st2 dst s (i + 1) bound = Inr (st', d')"
        using rest False by (simp add: st2_def)
      have le: "i + 1 \<le> s"
        using False Suc.prems(7) succ by (auto simp: word_le_nat_alt word_unat_eq_iff)
      have none: "\<forall>j < CACHE_NUMBLOCKS. cacheaddr st2 ! j \<noteq> s"
      proof (intro allI impI)
        fix j assume j: "j < CACHE_NUMBLOCKS"
        show "cacheaddr st2 ! j \<noteq> s"
        proof (cases "j = l")
          case True
          with l lens False show ?thesis by (simp add: st2_def a1)
        next
          case ne: False
          with j Suc.prems(9) show ?thesis by (simp add: st2_def a1)
        qed
      qed
      show ?thesis
        by (rule Suc.IH [OF n rest' wf2 t02 nw2 old2 le Suc.prems(8) none])
    qed
  qed
qed

text \<open>No tick above the tick counter: kept by a run, as long as the counter does not wrap.\<close>

lemma cached_fill_bounded:
  assumes "n = unat bound - unat i"
    and "cached_fill st dst s i bound = Inr (st', d')"
    and "cache_wf st" and "ticks_bounded st"
    and "unat (cacheticks st) + n < 2 ^ 32"
  shows "cache_wf st' \<and> ticks_bounded st' \<and> unat (cacheticks st') \<le> unat (cacheticks st) + n"
  using assms
proof (induction n arbitrary: st dst i)
  case 0
  from "0.prems"(1) have "\<not> i < bound"
    by (simp add: word_less_nat_alt)
  then have "cached_fill st dst s i bound = Inr (st, dst)"
    by (rule cached_fill_done)
  with "0.prems"(2) have "st' = st" by simp
  with "0.prems"(3,4) show ?case by simp
next
  case (Suc n)
  from Suc.prems(1) have lt: "i < bound"
    by (simp add: word_less_nat_alt)
  have succ: "unat (i + 1) = Suc (unat i)"
    using lt by (rule word32_succ_unat)
  have n: "n = unat bound - unat (i + 1)"
    using Suc.prems(1) succ by simp
  note wf = Suc.prems(3)
  show ?case
  proof (rule create_cache_entry_step [OF wf, of i])
    fix l st1
    assume c: "create_cache_entry st i = (int l, st1)" and l: "l < CACHE_NUMBLOCKS"
      and t1: "cachetick st1 = (cachetick st)[l := cacheticks st1]"
      and ct1: "cacheticks st1 = cacheticks st \<or> cacheticks st1 = cacheticks st + 1"
      and wf1: "cache_wf st1"
    have refl: "cacheticks st \<le> cacheticks st" by simp
    note ts = tick_step [OF refl Suc.prems(5) _ ct1]
    have up: "cacheticks st \<le> cacheticks st1" and nw': "unat (cacheticks st1) + n < 2 ^ 32"
      using ts by simp_all
    have le1: "unat (cacheticks st1) \<le> Suc (unat (cacheticks st))"
    proof -
      have "unat (cacheticks st + 1) \<le> unat (cacheticks st) + unat (1 :: u32)"
        by (simp add: unat_word_ariths)
      with ct1 show ?thesis by auto
    qed
    have b1: "ticks_bounded st1"
    proof -
      have "list_all (\<lambda>x. x \<le> cacheticks st1) (cachetick st)"
        using Suc.prems(4) up unfolding ticks_bounded_def list_all_iff
        by (auto intro: order_trans)
      then have "list_all (\<lambda>x. x \<le> cacheticks st1) ((cachetick st)[l := cacheticks st1])"
        unfolding list_all_iff by (auto dest!: set_update_subset_insert [THEN subsetD])
      then show ?thesis
        by (simp add: ticks_bounded_def t1)
    qed
    from Suc.prems(2) obtain data where
      rest: "cached_fill (st1\<lparr>cachedata := (cachedata st1)[l := data]\<rparr>)
                   (if i = s then data else dst) s (i + 1) bound = Inr (st', d')"
      unfolding cached_fill_step [OF lt c l]
      by (auto split: option.splits)
    define st2 where "st2 = st1\<lparr>cachedata := (cachedata st1)[l := data]\<rparr>"
    have wf2: "cache_wf st2" and b2: "ticks_bounded st2"
      and nw2: "unat (cacheticks st2) + n < 2 ^ 32"
      using wf1 b1 nw' by (simp_all add: st2_def cache_wf_def ticks_bounded_def)
    from Suc.IH [OF n rest [folded st2_def] wf2 b2 nw2]
    have r: "cache_wf st' \<and> ticks_bounded st' \<and>
          unat (cacheticks st') \<le> unat (cacheticks st2) + n" .
    have e: "cacheticks st2 = cacheticks st1" by (simp add: st2_def)
    from r have "unat (cacheticks st') \<le> unat (cacheticks st1) + n"
      unfolding e by (rule conjunct2 [THEN conjunct2])
    with le1 have "unat (cacheticks st') \<le> unat (cacheticks st) + Suc n" by arith
    with r show ?thesis by blast
  qed
qed

text \<open>The run of a sector whose aligned group ends below \<open>2 ^ 32\<close>.\<close>

lemma aligned_run:
  fixes s :: u32
  assumes k: "k < 16" and fit: "unat s + 2 ^ k < 2 ^ 32"
  defines "lba \<equiv> s AND NOT (push_bit k 1 - 1)"
  defines "bound \<equiv> lba + ucast (ucast (push_bit k (1 :: u32)) :: u16)"
  shows "lba \<le> s" and "s < bound" and "unat bound - unat lba = 2 ^ k"
proof -
  have lba: "lba = push_bit k (drop_bit k s)"
    unfolding lba_def by (rule and_not_low_mask)
  have ts: "take_bit 32 (unat s) = unat s"
    using unsigned_less [of s, where ?'a = nat] by (simp add: take_bit_nat_eq_self)
  have "unat lba = take_bit 32 (push_bit k (drop_bit k (unat s)))"
    unfolding lba by (simp add: unsigned_push_bit_eq unsigned_drop_bit_eq ts)
  also have "\<dots> = push_bit k (drop_bit k (unat s))"
  proof -
    have "push_bit k (drop_bit k (unat s)) \<le> unat s"
      by (simp add: push_bit_eq_mult drop_bit_eq_div)
    also have "\<dots> < 2 ^ 32" using fit by simp
    finally show ?thesis by (simp add: take_bit_nat_eq_self)
  qed
  finally have ul: "unat lba = 2 ^ k * (unat s div 2 ^ k)"
    by (simp add: push_bit_eq_mult drop_bit_eq_div mult.commute)
  have le: "unat lba \<le> unat s"
    unfolding ul by simp
  have "unat s = 2 ^ k * (unat s div 2 ^ k) + unat s mod 2 ^ k"
    by simp
  moreover have "unat s mod 2 ^ k < 2 ^ k"
    by simp
  ultimately have lt: "unat s < unat lba + 2 ^ k"
    unfolding ul by linarith
  have one: "(ucast (ucast (push_bit k (1 :: u32)) :: u16) :: u32) = push_bit k 1"
    by (simp only: read_size_ucast k if_True)
  have "unat (push_bit k (1 :: u32)) = take_bit LENGTH(32) (push_bit k (unat (1 :: u32)))"
    by (simp only: unsigned_push_bit_eq)
  also have "\<dots> = 2 ^ k"
    using k by (simp add: push_bit_of_1 take_bit_nat_eq_self)
  finally have up: "unat (push_bit k (1 :: u32)) = 2 ^ k" .
  have "unat lba + unat (push_bit k (1 :: u32)) < 2 ^ LENGTH(32)"
    using le fit unfolding up by simp
  then have "unat bound = unat lba + unat (push_bit k (1 :: u32))"
    unfolding bound_def one by (simp only: unat_add_lem)
  then have ub: "unat bound = unat lba + 2 ^ k"
    unfolding up .
  show "lba \<le> s" using le by (simp add: word_le_nat_alt)
  show "s < bound" using lt ub by (simp add: word_less_nat_alt)
  show "unat bound - unat lba = 2 ^ k" using ub by simp
qed

lemma older_than_le: "older_than t ticks \<le> length ticks"
  by (simp add: older_than_def)

text \<open>A read of a sector that the cache holds, with the data of the last read.\<close>

lemma reread_scan:
  assumes s: "s \<noteq> NOT 0" and wf: "cache_wf st1"
    and again: "find_cache_scan (cacheaddr st1) s 0 CACHE_NUMBLOCKS = Some j"
    and d: "cachedata st1 ! j = d1"
  shows "\<exists>st2 i. ata_readblock st1 dst' s = Inr (st2, d1) \<and>
           issued st2 = issued st1 \<and>
           i < CACHE_NUMBLOCKS \<and> cacheaddr st1 ! i = s \<and>
           cacheticks st2 = cacheticks st1 + 1 \<and> cachetick st2 ! i = cacheticks st2"
proof -
  have j: "j < CACHE_NUMBLOCKS" and a: "cacheaddr st1 ! j = s"
    using again by (simp_all add: find_cache_scan_Some)
  have len: "j < length (cachetick st1)"
    using wf j by (simp add: cache_wf_def)
  define st2 where "st2 = st1\<lparr>cacheticks := cacheticks st1 + 1,
                             cachetick := (cachetick st1)[j := cacheticks st1 + 1]\<rparr>"
  have r2: "ata_readblock st1 dst' s = Inr (st2, cachedata st1 ! j)"
    unfolding st2_def by (rule readblock_hit [OF s again])
  have "ata_readblock st1 dst' s = Inr (st2, d1) \<and>
           issued st2 = issued st1 \<and>
           j < CACHE_NUMBLOCKS \<and> cacheaddr st1 ! j = s \<and>
           cacheticks st2 = cacheticks st1 + 1 \<and> cachetick st2 ! j = cacheticks st2"
    using r2 j a d len by (simp add: st2_def)
  then show ?thesis
    by blast
qed

lemma reread_hit:
  assumes s: "s \<noteq> NOT 0" and wf: "cache_wf st1" and j: "j < CACHE_NUMBLOCKS"
    and a: "cacheaddr st1 ! j = s"
    and u: "\<forall>j' < CACHE_NUMBLOCKS. cacheaddr st1 ! j' = s \<longrightarrow> j' = j"
    and d: "cachedata st1 ! j = d1"
  shows "\<exists>st2 i. ata_readblock st1 dst' s = Inr (st2, d1) \<and>
           issued st2 = issued st1 \<and>
           i < CACHE_NUMBLOCKS \<and> cacheaddr st1 ! i = s \<and>
           cacheticks st2 = cacheticks st1 + 1 \<and> cachetick st2 ! i = cacheticks st2"
proof -
  have "\<forall>j'. 0 \<le> j' \<and> j' < j \<longrightarrow> cacheaddr st1 ! j' \<noteq> s"
  proof (intro allI impI)
    fix j' assume "0 \<le> j' \<and> j' < j"
    then have "j' < CACHE_NUMBLOCKS" "j' \<noteq> j" using j by simp_all
    with u show "cacheaddr st1 ! j' \<noteq> s" by blast
  qed
  then have again: "find_cache_scan (cacheaddr st1) s 0 CACHE_NUMBLOCKS = Some j"
    unfolding find_cache_scan_Some using j a by simp
  show ?thesis
    by (rule reread_scan [OF s wf again d])
qed

text \<open>What a completed cached read that missed has done.\<close>

lemma readblock_miss_fill:
  assumes miss: "find_cache_entry st s = (- 1, st)"
    and ok: "ata_readblock st dst s = Inr (st1, d1)"
  defines "lba \<equiv> s AND NOT (push_bit (unat (dev_alignment_log2 st)) (1 :: u32) - 1)"
  defines "cnt \<equiv> (ucast (push_bit (unat (dev_alignment_log2 st)) (1 :: u32)) :: u16)"
  obtains st2 where
    "cached_fill (ata_send_read_command st lba cnt) dst s lba (lba + ucast cnt) = Inr (st2, d1)"
    "st1 = st2\<lparr>cacheticks := cacheticks st2 + 1\<rparr>"
proof -
  have "ata_readblock st dst s =
      (if dev_lba48 st = 0 \<and> 0x0FFFFFFF < s then Inl (Out_of_bounds_read, st)
       else case cached_fill (ata_send_read_command st lba cnt) dst s lba (lba + ucast cnt) of
              Inl e \<Rightarrow> Inl e
            | Inr (st2, dst') \<Rightarrow> Inr (st2\<lparr>cacheticks := cacheticks st2 + 1\<rparr>, dst'))"
    unfolding ata_readblock_def ata_readblock2_def
    by (simp add: miss Let_def lba_def cnt_def)
  with ok obtain st2 where
    "cached_fill (ata_send_read_command st lba cnt) dst s lba (lba + ucast cnt) = Inr (st2, d1)"
    "st1 = st2\<lparr>cacheticks := cacheticks st2 + 1\<rparr>"
    by (auto split: if_splits sum.splits)
  then show ?thesis by (rule that)
qed

lemma ticks_below_next:
  fixes ct :: u32
  assumes b: "list_all (\<lambda>x. x \<le> ct) ticks" and c: "unat ct < 0xFFFF0000"
  shows "list_all (\<lambda>x. x < ct + 1) ticks \<and> list_all (\<lambda>x. x \<le> ct + 1) ticks \<and>
      unat (ct + 1) = Suc (unat ct)"
proof -
  have "unat ct + unat (1 :: u32) < 2 ^ LENGTH(32)"
    using c by simp
  then have "unat (ct + 1) = unat ct + unat (1 :: u32)"
    by (simp only: unat_add_lem)
  then have u: "unat (ct + 1) = Suc (unat ct)"
    by simp
  then have "ct < ct + 1"
    by (simp add: word_less_nat_alt)
  with b have l: "list_all (\<lambda>x. x < ct + 1) ticks"
    unfolding list_all_iff by auto
  then have "list_all (\<lambda>x. x \<le> ct + 1) ticks"
    unfolding list_all_iff by auto
  with l u show ?thesis by blast
qed

text \<open>
  After a completed cached read from a state with no tick above the tick counter: again no
  tick is above the counter, and all slots but at most one are older than it.
\<close>

lemma completed_read_ticks:
  assumes wf: "cache_wf st" and tb: "ticks_bounded st" and g: "cacheticks st < 0xFFFE0000"
    and first: "ata_readblock st dst s = Inr (st1, d1)"
  shows "cache_wf st1 \<and> ticks_bounded st1 \<and> CACHE_NUMBLOCKS - 1 \<le> older_slots st1 \<and>
         unat (cacheticks st1) < 0xFFFF0000"
proof -
  have gu: "unat (cacheticks st) < 0xFFFE0000"
    using g by (simp add: word_less_nat_alt)
  have len: "length (cachetick st) = CACHE_NUMBLOCKS"
    using wf by (simp add: cache_wf_def)
  note fresh = ticks_below_next
  show ?thesis
  proof (cases rule: find_cache_entry_cases [of st s])
    case (hit i)
    have st1: "st1 = st\<lparr>cacheticks := cacheticks st + 1,
                         cachetick := (cachetick st)[i := cacheticks st + 1]\<rparr>"
      using first readblock_hit [OF hit(1,2), of dst] by simp
    have f: "list_all (\<lambda>x. x < cacheticks st + 1) (cachetick st)"
      "list_all (\<lambda>x. x \<le> cacheticks st + 1) (cachetick st)"
      "unat (cacheticks st + 1) = Suc (unat (cacheticks st))"
      using fresh [of "cacheticks st" "cachetick st"] tb gu
      by (simp_all add: ticks_bounded_def)
    have w1: "cache_wf st1"
      using wf by (simp add: st1 cache_wf_def)
    have "list_all (\<lambda>x. x \<le> cacheticks st + 1) ((cachetick st)[i := cacheticks st + 1])"
      using f(2) unfolding list_all_iff
      by (auto dest!: set_update_subset_insert [THEN subsetD])
    then have b1: "ticks_bounded st1"
      by (simp add: st1 ticks_bounded_def)
    have "older_than (cacheticks st + 1) (cachetick st) = CACHE_NUMBLOCKS"
      using older_than_all [OF f(1)] len by simp
    then have o1: "CACHE_NUMBLOCKS - 1 \<le> older_slots st1"
      using older_than_update [of "cacheticks st + 1" "cachetick st" i "cacheticks st + 1"]
      by (simp add: st1 older_slots_def)
    have c1: "unat (cacheticks st1) < 0xFFFF0000"
      using f(3) gu by (simp add: st1)
    from w1 b1 o1 c1 show ?thesis by blast
  next
    case miss
    define lba where "lba = s AND NOT (push_bit (unat (dev_alignment_log2 st)) (1 :: u32) - 1)"
    define cnt where "cnt = (ucast (push_bit (unat (dev_alignment_log2 st)) (1 :: u32)) :: u16)"
    define sst where "sst = ata_send_read_command st lba cnt"
    define n where "n = unat (lba + ucast cnt) - unat lba"
    have n: "n < 65536"
      unfolding n_def by (rule run_length_bound)
    show ?thesis
    proof (rule readblock_miss_fill [OF miss(1) first, folded lba_def cnt_def, folded sst_def])
      fix st2
      assume cf: "cached_fill sst dst s lba (lba + ucast cnt) = Inr (st2, d1)"
        and st1: "st1 = st2\<lparr>cacheticks := cacheticks st2 + 1\<rparr>"
      have wfs: "cache_wf sst" and tbs: "ticks_bounded sst"
        and cts: "cacheticks sst = cacheticks st"
        using wf tb
        by (simp_all add: sst_def cache_wf_def ticks_bounded_def send_read_command_cache)
      have nws: "unat (cacheticks sst) + n < 2 ^ 32"
        using gu n by (simp add: cts)
      from cached_fill_bounded [OF n_def cf wfs tbs nws]
      have w2: "cache_wf st2" and b2: "ticks_bounded st2"
        and c2: "unat (cacheticks st2) \<le> unat (cacheticks sst) + n"
        by blast+
      have c2': "unat (cacheticks st2) < 0xFFFF0000"
        using c2 gu n by (simp add: cts)
      have f: "list_all (\<lambda>x. x < cacheticks st2 + 1) (cachetick st2)"
        "list_all (\<lambda>x. x \<le> cacheticks st2 + 1) (cachetick st2)"
        "unat (cacheticks st2 + 1) = Suc (unat (cacheticks st2))"
        using fresh [of "cacheticks st2" "cachetick st2"] b2 c2'
        by (simp_all add: ticks_bounded_def)
      have len2: "length (cachetick st2) = CACHE_NUMBLOCKS"
        using w2 by (simp add: cache_wf_def)
      have w1: "cache_wf st1"
        using w2 by (simp add: st1 cache_wf_def)
      have b1: "ticks_bounded st1"
        using f(2) by (simp add: st1 ticks_bounded_def)
      have "older_slots st1 = CACHE_NUMBLOCKS"
        using older_than_all [OF f(1)] len2 by (simp add: st1 older_slots_def)
      then have o1: "CACHE_NUMBLOCKS - 1 \<le> older_slots st1"
        by simp
      have "Suc (unat (cacheticks st2)) < 0xFFFF0000"
        using c2 gu n by (simp add: cts)
      then have c1: "unat (cacheticks st1) < 0xFFFF0000"
        using f(3) by (simp add: st1)
      from w1 b1 o1 c1 show ?thesis by blast
    qed
  qed
qed

text \<open>
  Claim C3, amended. Take a completed cached read of a sector. (1) If the aligned run of
  the sector ends below \<open>2 ^ 32\<close> (with one block per physical sector: every sector but
  the invalid-slot mark \<open>0xFFFFFFFF\<close>) and the run fits the cache (always so with one
  block per physical sector; otherwise: as many slots older than the tick counter as the run
  has blocks, and a tick counter that does not wrap around during the run), then a
  cached read of the same sector that follows immediately returns the same bytes, adds no
  command to the trace of issued commands, and is served from the slot holding the sector,
  whose tick becomes the incremented tick counter. (2) The run fits the cache in every
  state that a completed cached read leaves, for \<open>alignment_log2\<close> up to 3, provided no
  tick was above the tick counter and the counter is below \<open>0xFFFE0000\<close>; and then again
  no tick is above the counter. So only the first run into a freshly cleared cache is
  left out.
\<close>

theorem cached_reread_served_from_cache:
  assumes wf: "cache_wf st"
    and first: "ata_readblock st dst sector = Inr (st1, d1)"
  shows
  "(unat sector + 2 ^ unat (dev_alignment_log2 st) < 2 ^ 32 \<and> run_fits_cache st \<longrightarrow>
      (\<exists>st2 i. ata_readblock st1 dst' sector = Inr (st2, d1) \<and>
           issued st2 = issued st1 \<and>
           i < CACHE_NUMBLOCKS \<and> cacheaddr st1 ! i = sector \<and>
           cacheticks st2 = cacheticks st1 + 1 \<and> cachetick st2 ! i = cacheticks st2)) \<and>
   (ticks_bounded st \<and> cacheticks st < 0xFFFE0000 \<and> dev_alignment_log2 st \<le> 3 \<longrightarrow>
      cache_wf st1 \<and> ticks_bounded st1 \<and> cacheticks st1 < 0xFFFF0000 \<and> run_fits_cache st1)"
proof (intro conjI impI)
  assume "unat sector + 2 ^ unat (dev_alignment_log2 st) < 2 ^ 32 \<and> run_fits_cache st"
  then have run: "unat sector + 2 ^ unat (dev_alignment_log2 st) < 2 ^ 32"
    and fits: "run_fits_cache st"
    by simp_all
  have s: "sector \<noteq> NOT 0"
  proof
    assume "sector = NOT 0"
    moreover have "unat (- 1 :: u32) = 4294967295"
      by (simp add: unsigned_minus_1_eq_mask mask_eq_exp_minus_1)
    ultimately have "unat sector = 4294967295" by simp
    with run show False by simp
  qed
  show "\<exists>st2 i. ata_readblock st1 dst' sector = Inr (st2, d1) \<and>
           issued st2 = issued st1 \<and>
           i < CACHE_NUMBLOCKS \<and> cacheaddr st1 ! i = sector \<and>
           cacheticks st2 = cacheticks st1 + 1 \<and> cachetick st2 ! i = cacheticks st2"
  proof (cases rule: find_cache_entry_cases [of st sector])
    case (hit i)
    have st1: "st1 = st\<lparr>cacheticks := cacheticks st + 1,
                         cachetick := (cachetick st)[i := cacheticks st + 1]\<rparr>"
      and d1: "d1 = cachedata st ! i"
      using first readblock_hit [OF hit(1,2), of dst] by simp_all
    have again: "find_cache_scan (cacheaddr st1) sector 0 CACHE_NUMBLOCKS = Some i"
      using hit(2) by (simp add: st1)
    have w1: "cache_wf st1"
      using wf by (simp add: st1 cache_wf_def)
    have dd: "cachedata st1 ! i = d1"
      by (simp add: st1 d1)
    show ?thesis
      by (rule reread_scan [OF s w1 again dd])
  next
    case miss
    from miss(2) s have None: "find_cache_scan (cacheaddr st) sector 0 CACHE_NUMBLOCKS = None"
      by simp
    have none: "\<forall>j < CACHE_NUMBLOCKS. cacheaddr st ! j \<noteq> sector"
      using None by (simp add: find_cache_scan_None)
    show ?thesis
    proof (cases "dev_alignment_log2 st = 0")
      case True
      define j where "j = lru_scan (cachetick st) 0 0 CACHE_NUMBLOCKS"
      have j: "j < CACHE_NUMBLOCKS"
        unfolding j_def by (rule lru_scan_in_range)
      have st1: "st1 = (ata_send_read_command st sector 1)
         \<lparr>cacheaddr := (cacheaddr st)[j := sector],
          cachetick := (cachetick st)[j := cacheticks st],
          cachedata := (cachedata st)[j := d1],
          cacheticks := cacheticks st + 1\<rparr>"
        using readblock_miss_unaligned [OF True s None first] by (simp_all add: j_def)
      have lens: "j < length (cacheaddr st)" "j < length (cachedata st)"
        "j < length (cachetick st)"
        using wf j by (simp_all add: cache_wf_def)
      have w1: "cache_wf st1"
        using wf by (simp add: st1 cache_wf_def)
      have a: "cacheaddr st1 ! j = sector"
        using lens by (simp add: st1)
      have u: "\<forall>j' < CACHE_NUMBLOCKS. cacheaddr st1 ! j' = sector \<longrightarrow> j' = j"
      proof (intro allI impI)
        fix j' assume j': "j' < CACHE_NUMBLOCKS" and e: "cacheaddr st1 ! j' = sector"
        show "j' = j"
        proof (rule ccontr)
          assume "j' \<noteq> j"
          with e have "cacheaddr st ! j' = sector" by (simp add: st1)
          with j' none show False by simp
        qed
      qed
      have dd: "cachedata st1 ! j = d1"
        using lens by (simp add: st1)
      show ?thesis
        by (rule reread_hit [OF s w1 j a u dd])
    next
      case False
      define k where "k = unat (dev_alignment_log2 st)"
      from fits False have old: "2 ^ k \<le> older_slots st"
        and nw: "unat (cacheticks st) + 2 ^ k < 2 ^ 32"
        by (simp_all add: run_fits_cache_def k_def)
      have "older_slots st \<le> CACHE_NUMBLOCKS"
        using older_than_le [of "cacheticks st" "cachetick st"] wf
        by (simp add: older_slots_def cache_wf_def)
      with old have "(2 :: nat) ^ k \<le> 2 ^ 4"
        by (simp add: CACHE_NUMBLOCKS_def)
      then have "k \<le> 4"
        by (rule power_le_imp_le_exp [rotated]) simp
      then have k16: "k < 16" by simp
      define lba where "lba = sector AND NOT (push_bit k (1 :: u32) - 1)"
      define cnt where "cnt = (ucast (push_bit k (1 :: u32)) :: u16)"
      define sst where "sst = ata_send_read_command st lba cnt"
      note ar = aligned_run [OF k16 run [folded k_def], folded lba_def cnt_def]
      show ?thesis
      proof (rule readblock_miss_fill [OF miss(1) first, folded k_def, folded lba_def cnt_def,
            folded sst_def])
        fix st2
        assume cf: "cached_fill sst dst sector lba (lba + ucast cnt) = Inr (st2, d1)"
          and st1: "st1 = st2\<lparr>cacheticks := cacheticks st2 + 1\<rparr>"
        have wfs: "cache_wf sst"
          using wf by (simp add: sst_def cache_wf_def send_read_command_cache)
        have n: "2 ^ k = unat (lba + ucast cnt) - unat lba"
          using ar(3) by simp
        have t0: "cacheticks st \<le> cacheticks sst"
          by (simp add: sst_def send_read_command_cache)
        have nws: "unat (cacheticks sst) + 2 ^ k < 2 ^ 32"
          using nw by (simp add: sst_def send_read_command_cache)
        have olds: "2 ^ k \<le> older_than (cacheticks st) (cachetick sst)"
          using old by (simp add: sst_def send_read_command_cache older_slots_def)
        have nones: "\<forall>j < CACHE_NUMBLOCKS. cacheaddr sst ! j \<noteq> sector"
          using none by (simp add: sst_def send_read_command_cache)
        from cached_fill_places [OF n cf wfs t0 nws olds ar(1) ar(2) nones]
        obtain j where w2: "cache_wf st2" and j: "j < CACHE_NUMBLOCKS"
          and a2: "cacheaddr st2 ! j = sector"
          and u2: "\<forall>j' < CACHE_NUMBLOCKS. cacheaddr st2 ! j' = sector \<longrightarrow> j' = j"
          and d2: "cachedata st2 ! j = d1"
          by blast
        have w1: "cache_wf st1"
          using w2 by (simp add: st1 cache_wf_def)
        have a: "cacheaddr st1 ! j = sector" using a2 by (simp add: st1)
        have u: "\<forall>j' < CACHE_NUMBLOCKS. cacheaddr st1 ! j' = sector \<longrightarrow> j' = j"
          using u2 by (simp add: st1)
        have dd: "cachedata st1 ! j = d1" using d2 by (simp add: st1)
        show ?thesis
          by (rule reread_hit [OF s w1 j a u dd])
      qed
    qed
  qed
next
  assume h: "ticks_bounded st \<and> cacheticks st < 0xFFFE0000 \<and> dev_alignment_log2 st \<le> 3"
  then have tb: "ticks_bounded st" and g: "cacheticks st < 0xFFFE0000"
    and k3: "dev_alignment_log2 st \<le> 3"
    by simp_all
  from completed_read_ticks [OF wf tb g first]
  have w1: "cache_wf st1" and b1: "ticks_bounded st1"
    and o1: "CACHE_NUMBLOCKS - 1 \<le> older_slots st1"
    and c1: "unat (cacheticks st1) < 0xFFFF0000"
    by blast+
  have "dev_alignment_log2 (final_state (ata_readblock2 st dst sector True)) =
      dev_alignment_log2 st"
    by (rule readblock2_alignment)
  then have al: "dev_alignment_log2 st1 = dev_alignment_log2 st"
    using first by (simp add: ata_readblock_def final_state_def)
  have "unat (dev_alignment_log2 st) \<le> 3"
    using k3 by (simp add: word_le_nat_alt)
  then have "(2 :: nat) ^ unat (dev_alignment_log2 st) \<le> 2 ^ 3"
    by (rule power_increasing) simp
  then have p: "(2 :: nat) ^ unat (dev_alignment_log2 st1) \<le> 8"
    by (simp add: al)
  have "run_fits_cache st1"
    unfolding run_fits_cache_def using p o1 c1 by (simp add: CACHE_NUMBLOCKS_def)
  moreover have "cacheticks st1 < 0xFFFF0000"
    using c1 by (simp add: word_less_nat_alt)
  ultimately show "cache_wf st1" "ticks_bounded st1" "cacheticks st1 < 0xFFFF0000"
    "run_fits_cache st1"
    using w1 b1 by simp_all
qed

text \<open>
  With one block per physical sector, on a freshly cleared cache: sector 5 read twice, one
  command in all. With two blocks per physical sector, on a freshly cleared cache: the
  first read of sector 4 leaves a state that the run fits, the next read of sector 4 sends
  the second command, and the read after that is served from the cache.
\<close>

theorem cached_reread_served_from_cache_witness:
  "cache_wf (ata_boot_state 0 0 (\<lambda>s. Some [ucast s])) \<and>
   unat (5 :: u32) + 2 ^ unat (dev_alignment_log2 (ata_boot_state 0 0 (\<lambda>s. Some [ucast s])))
     < 2 ^ 32 \<and>
   run_fits_cache (ata_boot_state 0 0 (\<lambda>s. Some [ucast s])) \<and>
   (case ata_readblock (ata_boot_state 0 0 (\<lambda>s. Some [ucast s])) [] 5 of
      Inl e \<Rightarrow> False
    | Inr (st1, d1) \<Rightarrow>
        d1 = [5] \<and> length (issued st1) = 1 \<and>
        (\<exists>st2. ata_readblock st1 [] 5 = Inr (st2, [5]) \<and> issued st2 = issued st1)) \<and>
   cache_wf (ata_boot_state 0 1 (\<lambda>s. Some [ucast s])) \<and>
   ticks_bounded (ata_boot_state 0 1 (\<lambda>s. Some [ucast s])) \<and>
   cacheticks (ata_boot_state 0 1 (\<lambda>s. Some [ucast s])) < 0xFFFE0000 \<and>
   dev_alignment_log2 (ata_boot_state 0 1 (\<lambda>s. Some [ucast s])) \<le> 3 \<and>
   (case ata_readblock (ata_boot_state 0 1 (\<lambda>s. Some [ucast s])) [] 4 of
      Inl e \<Rightarrow> False
    | Inr (sa, da) \<Rightarrow>
        run_fits_cache sa \<and> ticks_bounded sa \<and>
        unat (4 :: u32) + 2 ^ unat (dev_alignment_log2 sa) < 2 ^ 32 \<and>
        (case ata_readblock sa [] 4 of
           Inl e \<Rightarrow> False
         | Inr (sb, db) \<Rightarrow>
             db = [4] \<and> length (issued sb) = 2 \<and>
             (\<exists>st2. ata_readblock sb [] 4 = Inr (st2, [4]) \<and> issued st2 = issued sb)))"
proof -
  let ?S = "ata_boot_state 0 0 (\<lambda>s. Some [ucast s])"
  let ?T = "ata_boot_state 0 1 (\<lambda>s. Some [ucast s])"
  have wf: "cache_wf ?S"
    by (simp add: cache_wf_def ata_boot_state_def clear_cache_def)
  have run: "unat (5 :: u32) + 2 ^ unat (dev_alignment_log2 ?S) < 2 ^ 32"
    by (simp add: ata_boot_state_def clear_cache_def)
  have fits: "run_fits_cache ?S"
    by (simp add: run_fits_cache_def ata_boot_state_def clear_cache_def)
  have "case ata_readblock ?S [] 5 of Inl e \<Rightarrow> False
        | Inr (st1, d1) \<Rightarrow> d1 = [5] \<and> length (issued st1) = 1"
    by code_simp
  then obtain st1 where first: "ata_readblock ?S [] 5 = Inr (st1, [5])"
    and one: "length (issued st1) = 1"
    by (auto split: sum.splits)
  from cached_reread_served_from_cache [OF wf first, of "[]", THEN conjunct1] run fits
  obtain st2 where again: "ata_readblock st1 [] 5 = Inr (st2, [5])" "issued st2 = issued st1"
    by blast
  have part1: "case ata_readblock ?S [] 5 of
      Inl e \<Rightarrow> False
    | Inr (st1, d1) \<Rightarrow>
        d1 = [5] \<and> length (issued st1) = 1 \<and>
        (\<exists>st2. ata_readblock st1 [] 5 = Inr (st2, [5]) \<and> issued st2 = issued st1)"
    unfolding first sum.case prod.case using one again by blast
  have wfT: "cache_wf ?T"
    by (simp add: cache_wf_def ata_boot_state_def clear_cache_def)
  have tbT: "ticks_bounded ?T"
    by (simp add: ticks_bounded_def ata_boot_state_def clear_cache_def list_all_iff)
  have gT: "cacheticks ?T < 0xFFFE0000"
    by (simp add: ata_boot_state_def clear_cache_def)
  have kT: "dev_alignment_log2 ?T \<le> 3"
    by (simp add: ata_boot_state_def clear_cache_def)
  have "case ata_readblock ?T [] 4 of Inl e \<Rightarrow> False
        | Inr (sa, da) \<Rightarrow>
            dev_alignment_log2 sa = 1 \<and>
            (case ata_readblock sa [] 4 of Inl e \<Rightarrow> False
             | Inr (sb, db) \<Rightarrow> db = [4] \<and> length (issued sb) = 2)"
    by code_simp
  then obtain sa da sb where r1: "ata_readblock ?T [] 4 = Inr (sa, da)"
    and al: "dev_alignment_log2 sa = 1"
    and r2: "ata_readblock sa [] 4 = Inr (sb, [4])"
    and two: "length (issued sb) = 2"
    by (auto split: sum.splits)
  from cached_reread_served_from_cache [OF wfT r1, THEN conjunct2] tbT gT kT
  have wa: "cache_wf sa" and ba: "ticks_bounded sa" and fa: "run_fits_cache sa"
    by blast+
  have runa: "unat (4 :: u32) + 2 ^ unat (dev_alignment_log2 sa) < 2 ^ 32"
    by (simp add: al)
  from cached_reread_served_from_cache [OF wa r2, of "[]", THEN conjunct1] runa fa
  obtain st3 where again3: "ata_readblock sb [] 4 = Inr (st3, [4])" "issued st3 = issued sb"
    by blast
  have part2: "case ata_readblock ?T [] 4 of
      Inl e \<Rightarrow> False
    | Inr (sa, da) \<Rightarrow>
        run_fits_cache sa \<and> ticks_bounded sa \<and>
        unat (4 :: u32) + 2 ^ unat (dev_alignment_log2 sa) < 2 ^ 32 \<and>
        (case ata_readblock sa [] 4 of
           Inl e \<Rightarrow> False
         | Inr (sb, db) \<Rightarrow>
             db = [4] \<and> length (issued sb) = 2 \<and>
             (\<exists>st2. ata_readblock sb [] 4 = Inr (st2, [4]) \<and> issued st2 = issued sb))"
    unfolding r1 sum.case prod.case r2 using fa ba runa two again3 by blast
  from wf run fits part1 wfT tbT gT kT part2 show ?thesis
    by blast
qed

text \<open>
  The claim for every sector and every state fails three times. Under LBA48 the mark
  \<open>0xFFFFFFFF\<close> is never cached, so its second read sends a second command. With
  \<open>alignment_log2 = 1\<close> and a freshly cleared cache, the run for sector 4 puts blocks
  4 and 5 into the same slot (all ticks are equal, and the tick counter only moves when
  the run is over), so sector 4 is gone from the cache when it is read again. With
  \<open>alignment_log2 = 1\<close> under LBA48, the run for sector \<open>0xFFFFFFFE\<close> ends at \<open>2 ^ 32\<close>,
  the loop bound wraps around to 0 and no block is received or stored: the read hands
  back the caller's buffer as it was, and the second read sends a second command.
\<close>

theorem cached_reread_counterexample:
  "(case ata_readblock (ata_boot_state 1 0 (\<lambda>s. Some [ucast s])) [] (NOT 0) of
      Inl e \<Rightarrow> False
    | Inr (st1, d1) \<Rightarrow>
        length (issued st1) = 1 \<and>
        length (issued (final_state (ata_readblock st1 [] (NOT 0)))) = 2) \<and>
   (case ata_readblock (ata_boot_state 0 1 (\<lambda>s. Some [ucast s])) [] 4 of
      Inl e \<Rightarrow> False
    | Inr (st1, d1) \<Rightarrow>
        d1 = [4] \<and> length (issued st1) = 1 \<and>
        length (issued (final_state (ata_readblock st1 [] 4))) = 2) \<and>
   (case ata_readblock (ata_boot_state 1 1 (\<lambda>s. Some [ucast s])) [] 0xFFFFFFFE of
      Inl e \<Rightarrow> False
    | Inr (st1, d1) \<Rightarrow>
        d1 = [] \<and> length (issued st1) = 1 \<and>
        length (issued (final_state (ata_readblock st1 [] 0xFFFFFFFE))) = 2)"
  by code_simp

subsection \<open>The IDENTIFY checksum\<close>

lemma identify_sum_unat:
  "unat (identify_sum buff i n acc) =
     (unat acc + (\<Sum>j < n. unat (buff ! (i + j) AND 0x00FF) + unat (drop_bit 8 (buff ! (i + j)))))
       mod 256"
proof (induction n arbitrary: i acc)
  case 0
  have "unat acc < 256"
    using unsigned_less [of acc, where ?'a = nat] by simp
  then show ?case
    by simp
next
  case (Suc n)
  let ?f = "\<lambda>j. unat (buff ! j AND 0x00FF) + unat (drop_bit 8 (buff ! j))"
  have lo: "unat (ucast (buff ! i AND 0x00FF) :: u8) = unat (buff ! i AND 0x00FF) mod 256"
    by (simp add: unsigned_ucast_eq take_bit_eq_mod)
  have hi: "unat (ucast (drop_bit 8 (buff ! i)) :: u8) = unat (drop_bit 8 (buff ! i)) mod 256"
    by (simp add: unsigned_ucast_eq take_bit_eq_mod)
  have step: "unat (acc + ucast (buff ! i AND 0x00FF) + ucast (drop_bit 8 (buff ! i)) :: u8) =
      (unat acc + ?f i) mod 256"
    by (simp add: unat_word_ariths lo hi mod_simps add.assoc)
  have shift: "(\<Sum>j < Suc n. ?f (i + j)) = ?f i + (\<Sum>j < n. ?f (Suc i + j))"
    by (subst sum.lessThan_Suc_shift) simp
  show ?case
    by (simp only: identify_sum.simps Suc.IH step shift) (simp add: mod_simps add.assoc)
qed

lemma identify_sum_byte_sum: "identify_sum buff 0 256 0 = 0 \<longleftrightarrow> byte_sum buff mod 256 = 0"
proof -
  have "unat (identify_sum buff 0 256 0) = byte_sum buff mod 256"
    by (simp add: identify_sum_unat byte_sum_def)
  then show ?thesis
    by (metis unat_eq_0)
qed

text \<open>
  Claim C8, amended. Identification fails fatally exactly when the response carries a
  checksum (low byte of word 255 is \<open>0xA5\<close>) and the sum of all 512 bytes of the
  response (the low and the high byte of each of the 256 words), taken modulo 256, is not
  zero. With no checksum, or with that sum zero, identification proceeds and yields the
  drive configuration.
\<close>

theorem identify_fails_iff_byte_sum_nonzero:
  "(ata_identify buff = Inl Identify_checksum_mismatch \<longleftrightarrow>
      (buff ! 255 AND 0x00FF = 0xA5 \<and> byte_sum buff mod 256 \<noteq> 0)) \<and>
   ((\<exists>dev. ata_identify buff = Inr dev) \<longleftrightarrow>
      \<not> (buff ! 255 AND 0x00FF = 0xA5 \<and> byte_sum buff mod 256 \<noteq> 0))"
  by (auto simp: ata_identify_def Let_def identify_sum_byte_sum)

text \<open>
  A response whose bytes sum to \<open>0x1FF\<close> is refused; one whose bytes sum to \<open>0x100\<close>
  is accepted.
\<close>

theorem identify_fails_iff_byte_sum_nonzero_witness:
  "ata_identify ([0xFF5B] @ replicate 254 0 @ [0x00A5]) = Inl Identify_checksum_mismatch \<and>
   byte_sum ([0xFF5B] @ replicate 254 0 @ [0x00A5]) mod 256 \<noteq> 0 \<and>
   ata_identify (replicate 255 0 @ [0x5BA5]) \<noteq> Inl Identify_checksum_mismatch \<and>
   (replicate 255 0 @ [0x5BA5 :: u16]) ! 255 AND 0x00FF = 0xA5 \<and>
   byte_sum (replicate 255 0 @ [0x5BA5]) mod 256 = 0"
proof -
  have bad: "ata_identify ([0xFF5B] @ replicate 254 0 @ [0x00A5]) = Inl Identify_checksum_mismatch"
    by code_simp
  have good: "ata_identify (replicate 255 0 @ [0x5BA5]) \<noteq> Inl Identify_checksum_mismatch"
    by code_simp
  have sig: "(replicate 255 0 @ [0x5BA5 :: u16]) ! 255 AND 0x00FF = 0xA5"
    by code_simp
  show ?thesis
    using bad good sig
      identify_fails_iff_byte_sum_nonzero [of "[0xFF5B] @ replicate 254 0 @ [0x00A5]"]
      identify_fails_iff_byte_sum_nonzero [of "replicate 255 0 @ [0x5BA5]"]
    by blast
qed

text \<open>
  The claim reads the checksum rule as a sum of sixteen-bit words. On the code that fails
  both ways: the response with word 255 equal to \<open>0x5BA5\<close> and zeros elsewhere has a
  nonzero word sum and is accepted, and the response with words \<open>0xFF5B\<close> and
  \<open>0x00A5\<close> has word sum zero (modulo \<open>2 ^ 16\<close>) and is refused.
\<close>

theorem identify_word_sum_counterexample:
  "(replicate 255 0 @ [0x5BA5 :: u16]) ! 255 AND 0x00FF = 0xA5 \<and>
   spec_word_sum (replicate 255 0 @ [0x5BA5]) \<noteq> 0 \<and>
   ata_identify (replicate 255 0 @ [0x5BA5]) \<noteq> Inl Identify_checksum_mismatch \<and>
   ([0xFF5B] @ replicate 254 0 @ [0x00A5 :: u16]) ! 255 AND 0x00FF = 0xA5 \<and>
   spec_word_sum ([0xFF5B] @ replicate 254 0 @ [0x00A5]) = 0 \<and>
   ata_identify ([0xFF5B] @ replicate 254 0 @ [0x00A5]) = Inl Identify_checksum_mismatch"
  by code_simp

section \<open>Properties of the FAT driver\<close>

subsection \<open>Seeking\<close>

lemma seek_sum_word:
  fixes offset base :: u32
  shows "offset + base = word_of_int (uint base + sint offset)"
  by simp

lemma sint_bounds32:
  fixes w :: u32
  shows "- 2147483648 \<le> sint w" "sint w < 2147483648"
  using sint_ge [of w] sint_lt [of w] by simp_all

lemma seek_check:
  fixes len :: u32
  assumes "- 2147483648 \<le> t" "t < 4294967296"
  shows "(sint (word_of_int t :: u32) < 0 \<or> len < word_of_int t) \<longleftrightarrow>
         (t < 0 \<or> uint len < t \<or> 2147483648 \<le> t)"
proof -
  consider "t < 0" | "0 \<le> t" "t < 2147483648" | "2147483648 \<le> t"
    by linarith
  then show ?thesis
  proof cases
    case 1
    then have "sint (word_of_int t :: u32) = t"
      using assms by (simp add: sint_sbintrunc' signed_take_bit_int_eq_self)
    then show ?thesis
      using 1 by simp
  next
    case 2
    then have s: "sint (word_of_int t :: u32) = t"
      using assms by (simp add: sint_sbintrunc' signed_take_bit_int_eq_self)
    have u: "uint (word_of_int t :: u32) = t"
      using 2 by (simp add: uint_word_of_int)
    show ?thesis
      using 2 s u by (simp add: word_less_def)
  next
    case 3
    have "(t + 2147483648) mod 4294967296 = t - 2147483648"
      using 3 assms by (simp add: mod_pos_geq)
    then have "sint (word_of_int t :: u32) = t - 4294967296"
      by (simp add: int_word_sint)
    then show ?thesis
      using 3 assms by simp
  qed
qed

lemma file_of_set_file:
  "file_of fs fd = Some f \<Longrightarrow> file_of (set_file fs fd f') fd = Some f'"
  by (auto simp: file_of_def set_file_def split: if_splits)

lemma seek_to_target:
  fixes offset base :: u32
  assumes "uint base + sint offset < 4294967296"
  shows "seek_to fs fd f (offset + base) =
     (if uint base + sint offset < 0 \<or> uint (file_length f) < uint base + sint offset \<or>
         2147483648 \<le> uint base + sint offset
      then (- 1, fs)
      else (0, set_file fs fd (f\<lparr>file_position := word_of_int (uint base + sint offset)\<rparr>)))"
proof -
  have lo: "- 2147483648 \<le> uint base + sint offset"
    using sint_bounds32(1) [of offset] uint_ge_0 [of base] by linarith
  show ?thesis
    unfolding seek_to_def seek_sum_word seek_check [OF lo assms] by simp
qed

text \<open>
  Claim C5, amended. For a descriptor with a handle, \<open>seek\<close> takes offsets relative to
  the file start, the current position or the file end (any other \<open>whence\<close> returns
  \<open>-2\<close> and changes nothing). Provided the target position, base plus offset, is below
  \<open>2 ^ 32\<close> (so that the 32-bit sum does not wrap around): a target outside
  \<open>[0, length]\<close> returns \<open>-1\<close> and leaves the volume structure, and so the handle's
  position, unchanged, and so does a target of \<open>2 ^ 31\<close> or more (a negative
  \<open>long\<close>); every other target is stored as the new position and \<open>0\<close> is returned.
  A call that returns a non-negative result returns \<open>0\<close>, with the position set to the
  target and the target within \<open>[0, length]\<close>.
\<close>

theorem fat32_seek_within_file:
  assumes "file_of fs fd = Some f" and "seek_target f offset w < 4294967296"
  shows "fat32_seek fs fd offset w =
     (if w = VFS_SEEK_other then Some (- 2, fs)
      else if seek_target f offset w < 0 \<or> uint (file_length f) < seek_target f offset w \<or>
              2147483648 \<le> seek_target f offset w
      then Some (- 1, fs)
      else Some (0, set_file fs fd (f\<lparr>file_position := word_of_int (seek_target f offset w)\<rparr>))) \<and>
     (\<forall>r fs'. fat32_seek fs fd offset w = Some (r, fs') \<and> 0 \<le> r \<longrightarrow>
        r = 0 \<and> 0 \<le> seek_target f offset w \<and> seek_target f offset w \<le> uint (file_length f) \<and>
        map_option file_position (file_of fs' fd) = Some (word_of_int (seek_target f offset w)))"
proof -
  have eq: "fat32_seek fs fd offset w =
     (if w = VFS_SEEK_other then Some (- 2, fs)
      else if seek_target f offset w < 0 \<or> uint (file_length f) < seek_target f offset w \<or>
              2147483648 \<le> seek_target f offset w
      then Some (- 1, fs)
      else Some (0, set_file fs fd (f\<lparr>file_position := word_of_int (seek_target f offset w)\<rparr>)))"
  proof (cases w)
    case VFS_SEEK_CUR
    then show ?thesis
      using assms seek_to_target [of "file_position f" offset fs fd f]
      by (simp add: fat32_seek_def seek_target_def seek_base_def)
  next
    case VFS_SEEK_SET
    then show ?thesis
      using assms seek_to_target [of 0 offset fs fd f]
      by (simp add: fat32_seek_def seek_target_def seek_base_def)
  next
    case VFS_SEEK_END
    then show ?thesis
      using assms seek_to_target [of "file_length f" offset fs fd f]
      by (simp add: fat32_seek_def seek_target_def seek_base_def)
  next
    case VFS_SEEK_other
    then show ?thesis
      by (simp add: fat32_seek_def)
  qed
  show ?thesis
    unfolding eq using file_of_set_file [OF assms(1)]
    by (auto split: if_splits)
qed
text \<open>
  A ten-byte file at position 5: seeking 3 forward lands on 8; seeking 1 past the end is
  refused.
\<close>

theorem fat32_seek_within_file_witness:
  "file_of (snd (fat32_open fat_cleared
       (Some \<lparr>file_cluster = 2, file_opened = 1, file_position = 5, file_length = 10\<rparr>))) 0 =
     Some \<lparr>file_cluster = 2, file_opened = 1, file_position = 5, file_length = 10\<rparr> \<and>
   seek_target \<lparr>file_cluster = 2, file_opened = 1, file_position = 5, file_length = 10\<rparr>
     3 VFS_SEEK_CUR = 8 \<and>
   map_option fst (fat32_seek (snd (fat32_open fat_cleared
       (Some \<lparr>file_cluster = 2, file_opened = 1, file_position = 5, file_length = 10\<rparr>)))
       0 3 VFS_SEEK_CUR) = Some 0 \<and>
   seek_target \<lparr>file_cluster = 2, file_opened = 1, file_position = 5, file_length = 10\<rparr>
     1 VFS_SEEK_END = 11 \<and>
   fat32_seek (snd (fat32_open fat_cleared
       (Some \<lparr>file_cluster = 2, file_opened = 1, file_position = 5, file_length = 10\<rparr>)))
       0 1 VFS_SEEK_END =
     Some (- 1, snd (fat32_open fat_cleared
       (Some \<lparr>file_cluster = 2, file_opened = 1, file_position = 5, file_length = 10\<rparr>)))"
proof -
  let ?f = "\<lparr>file_cluster = 2, file_opened = 1, file_position = 5, file_length = 10\<rparr>"
  let ?fs = "snd (fat32_open fat_cleared (Some ?f))"
  have h: "file_of ?fs 0 = Some ?f"
    by (simp add: fat32_open_def fat_cleared_def MAX_HANDLES_def file_of_def)
  have t1: "seek_target ?f 3 VFS_SEEK_CUR = 8"
    by (simp add: seek_target_def seek_base_def)
  have t2: "seek_target ?f 1 VFS_SEEK_END = 11"
    by (simp add: seek_target_def seek_base_def)
  have b1: "seek_target ?f 3 VFS_SEEK_CUR < 4294967296"
    by (simp add: t1)
  have b2: "seek_target ?f 1 VFS_SEEK_END < 4294967296"
    by (simp add: t2)
  show ?thesis
    using h t1 t2 fat32_seek_within_file [OF h b1] fat32_seek_within_file [OF h b2]
    by simp
qed

text \<open>
  The claim for every handle fails where the sum wraps around: in a file of
  \<open>0xC0000000\<close> bytes, a seek to \<open>0x40000010\<close> bytes past the end aims at
  \<open>2 ^ 32 + 16\<close>, far outside the file, and yet returns 0 and sets the position to 16.
\<close>

theorem fat32_seek_wrap_counterexample:
  "uint (file_length \<lparr>file_cluster = 2, file_opened = 1, file_position = 0,
                      file_length = 0xC0000000\<rparr>) <
     seek_target \<lparr>file_cluster = 2, file_opened = 1, file_position = 0,
                  file_length = 0xC0000000\<rparr> 0x40000010 VFS_SEEK_END \<and>
   fat32_seek (snd (fat32_open fat_cleared
       (Some \<lparr>file_cluster = 2, file_opened = 1, file_position = 0, file_length = 0xC0000000\<rparr>)))
       0 0x40000010 VFS_SEEK_END =
     Some (0, set_file (snd (fat32_open fat_cleared
       (Some \<lparr>file_cluster = 2, file_opened = 1, file_position = 0, file_length = 0xC0000000\<rparr>)))
       0 \<lparr>file_cluster = 2, file_opened = 1, file_position = 16, file_length = 0xC0000000\<rparr>)"
  by code_simp

subsection \<open>What reading leaves alone\<close>

text \<open>
  Only \<open>fat32_read\<close> itself writes to the volume structure; the helpers touch the block
  device state and the two buffers.
\<close>

lemma readToSectorBuf_fat:
  "readToSectorBuf st sector = Inr st' \<Longrightarrow> fat st' = fat st"
  by (auto simp: readToSectorBuf_def split: if_splits sum.splits prod.splits)

lemma fat32_findnextcluster_fat:
  "fat32_findnextcluster st c = Inr (st', c') \<Longrightarrow> fat st' = fat st"
  by (auto simp: fat32_findnextcluster_def Let_def dest: readToSectorBuf_fat
           split: if_splits sum.splits)

lemma ffwd_clusters_fat:
  "ffwd_clusters st c n = Inr (st', c') \<Longrightarrow> fat st' = fat st"
proof (induction n arbitrary: st c)
  case 0
  then show ?case by simp
next
  case (Suc n)
  then show ?case
    by (auto split: sum.splits prod.splits dest!: fat32_findnextcluster_fat)
qed

lemma read_to_clusterBuffer_fat:
  "read_to_clusterBuffer st lba n = Inr st' \<Longrightarrow> fat st' = fat st"
  by (auto simp: read_to_clusterBuffer_def split: sum.splits prod.splits)

lemma read_whole_clusters_fat_aux:
  assumes "read_whole_clusters st0 out0 c0 rd0 bound0 = Some r0"
  shows "case r0 of Inl e \<Rightarrow> True | Inr x \<Rightarrow> fat (fst x) = fat st0"
proof (rule read_whole_clusters.raw_induct
    [where P = "\<lambda>st out c rd bound r.
        (case r of Inl e \<Rightarrow> True | Inr x \<Rightarrow> fat (fst x) = fat st)", OF _ assms])
  fix f :: "fat_state \<Rightarrow> u8 list \<Rightarrow> u32 \<Rightarrow> u32 \<Rightarrow> u32 \<Rightarrow>
              ((fat_state \<times> u8 list \<times> u32 \<times> u32) fat_outcome) option"
    and st :: fat_state and out c rd bound r
  assume IH: "\<And>st out c rd bound r. f st out c rd bound = Some r \<Longrightarrow>
     (case r of Inl e \<Rightarrow> True | Inr x \<Rightarrow> fat (fst x) = fat st)"
  assume body: "(if rd < bound then
        (case fat32_findnextcluster st c of
           Inl e \<Rightarrow> Some (Inl e)
         | Inr (st1, c1) \<Rightarrow>
             (case read_to_clusterBuffer st1 (calc_lba (fat st1) c1 False)
                     (ucast (blks_per_cluster (fat st1))) of
                Inl e \<Rightarrow> Some (Inl e)
              | Inr st2 \<Rightarrow>
                  f st2
                    (out @ take (unat (bytes_per_cluster (fat st2))) (concat (clusterBuffer st2)))
                    c1 (rd + bytes_per_cluster (fat st2)) bound))
      else Some (Inr (st, out, c, rd))) = Some r"
  show "(case r of Inl e \<Rightarrow> True | Inr x \<Rightarrow> fat (fst x) = fat st)"
  proof (cases "rd < bound")
    case False
    from body have "r = Inr (st, out, c, rd)" unfolding if_not_P [OF False] by simp
    then show ?thesis by simp
  next
    case True
    note body1 = body [unfolded if_P [OF True]]
    show ?thesis
    proof (cases "fat32_findnextcluster st c")
      case (Inl e)
      from body1 have "r = Inl e" unfolding Inl sum.case by simp
      then show ?thesis by simp
    next
      case (Inr p)
      obtain st1 c1 where p: "p = (st1, c1)" by (cases p)
      have f1: "fat st1 = fat st" using Inr unfolding p by (rule fat32_findnextcluster_fat)
      note body2 = body1 [unfolded Inr p sum.case prod.case]
      show ?thesis
      proof (cases "read_to_clusterBuffer st1 (calc_lba (fat st1) c1 False)
                      (ucast (blks_per_cluster (fat st1)))")
        case (Inl e)
        from body2 have "r = Inl e" unfolding Inl sum.case by simp
        then show ?thesis by simp
      next
        case st2: (Inr st2)
        have f2: "fat st2 = fat st1" using st2 by (rule read_to_clusterBuffer_fat)
        note body3 = body2 [unfolded st2 sum.case]
        from IH [OF body3] f1 f2 show ?thesis by (cases r) simp_all
      qed
    qed
  qed
qed

lemma read_whole_clusters_fat:
  "read_whole_clusters st out c rd bound = Some (Inr (st', out', c', rd')) \<Longrightarrow> fat st' = fat st"
  by (drule read_whole_clusters_fat_aux) simp

lemma read_final_cluster_fat:
  "read_final_cluster st out c rd toRead = Inr (st', out', rd') \<Longrightarrow> fat st' = fat st"
  by (auto simp: read_final_cluster_def split: if_splits sum.splits prod.splits
           dest!: fat32_findnextcluster_fat read_to_clusterBuffer_fat)

text \<open>
  A read that returns has advanced the position of its handle by the byte count it
  settled on, and has changed nothing else of the volume structure.
\<close>

lemma fat32_read_fat:
  assumes "fat32_read st sz nmemb fd = Some (Inr (n, out, st'))"
    and "file_of (fat st) fd = Some f"
  shows "fat st' = set_file (fat st) fd
           (f\<lparr>file_position := file_position f + read_request f sz nmemb\<rparr>)"
proof -
  from assms obtain st1 cluster where
    ff: "ffwd_clusters st (file_cluster f) (unat (file_position f div bytes_per_cluster (fat st)))
           = Inr (st1, cluster)"
    by (auto simp: fat32_read_def Let_def split: sum.splits)
  from assms ff obtain st2 where
    r1: "read_to_clusterBuffer st1 (calc_lba (fat st1) cluster False)
           ((bytes_per_cluster (fat st) - file_position f mod bytes_per_cluster (fat st) +
             ucast (bytes_per_sector (fat st1)) - 1) div ucast (bytes_per_sector (fat st1)) *
            ucast (blks_per_sector (fat st1))) = Inr st2"
    by (auto simp: fat32_read_def Let_def split: sum.splits)
  from assms ff r1 obtain out0 rd0 st3 out3 cluster3 read3 st4 read4 where
    r2: "read_whole_clusters st2 out0 cluster rd0
           (read_request f sz nmemb div bytes_per_cluster (fat st) * bytes_per_cluster (fat st))
           = Some (Inr (st3, out3, cluster3, read3))"
    and r3: "read_final_cluster st3 out3 cluster3 read3 (read_request f sz nmemb)
           = Inr (st4, out, read4)"
    and st': "st' = st4\<lparr>fat := set_file (fat st4) fd
                (f\<lparr>file_position := file_position f + read_request f sz nmemb\<rparr>)\<rparr>"
    by (simp add: fat32_read_def Let_def split: sum.splits option.splits prod.splits)
  have "fat st4 = fat st"
    using ffwd_clusters_fat [OF ff] read_to_clusterBuffer_fat [OF r1]
      read_whole_clusters_fat [OF r2] read_final_cluster_fat [OF r3] by simp
  with st' show ?thesis by simp
qed
subsection \<open>Reading does not look at the handle count\<close>

lemma case_sum_map_sum:
  "case_sum f g (map_sum h k x) = case_sum (\<lambda>a. f (h a)) (\<lambda>b. g (k b)) x"
  by (cases x) simp_all

lemma map_sum_case_sum:
  "map_sum h k (case_sum f g x) = case_sum (\<lambda>a. map_sum h k (f a)) (\<lambda>b. map_sum h k (g b)) x"
  by (cases x) simp_all

lemma map_sum_case_prod:
  "map_sum h k (case_prod f p) = case_prod (\<lambda>a b. map_sum h k (f a b)) p"
  by (cases p) simp

lemma readToSectorBuf_numHandles:
  "readToSectorBuf (st\<lparr>fat := (fat st)\<lparr>numHandles := n\<rparr>\<rparr>) sector =
     map_sum id (\<lambda>s. s\<lparr>fat := (fat s)\<lparr>numHandles := n\<rparr>\<rparr>) (readToSectorBuf st sector)"
  by (cases "ata_readblocks (ata st) (gFATSectorBuf st)
              (sector * ucast (blks_per_sector (fat st))) (ucast (blks_per_sector (fat st)))")
     (auto simp: readToSectorBuf_def)

lemma fat32_findnextcluster_numHandles:
  "fat32_findnextcluster (st\<lparr>fat := (fat st)\<lparr>numHandles := n\<rparr>\<rparr>) c =
     map_sum id (\<lambda>(s, c'). (s\<lparr>fat := (fat s)\<lparr>numHandles := n\<rparr>\<rparr>, c'))
       (fat32_findnextcluster st c)"
  by (simp add: fat32_findnextcluster_def readToSectorBuf_numHandles Let_def
        case_sum_map_sum map_sum_case_sum cong: sum.case_cong)

lemma ffwd_clusters_numHandles:
  "ffwd_clusters (st\<lparr>fat := (fat st)\<lparr>numHandles := n\<rparr>\<rparr>) c k =
     map_sum id (\<lambda>(s, c'). (s\<lparr>fat := (fat s)\<lparr>numHandles := n\<rparr>\<rparr>, c'))
       (ffwd_clusters st c k)"
proof (induction k arbitrary: st c)
  case 0
  show ?case by simp
next
  case (Suc k)
  show ?case
    by (cases "fat32_findnextcluster st c")
       (auto simp: fat32_findnextcluster_numHandles Suc.IH)
qed

lemma read_to_clusterBuffer_numHandles:
  "read_to_clusterBuffer (st\<lparr>fat := (fat st)\<lparr>numHandles := n\<rparr>\<rparr>) lba k =
     map_sum id (\<lambda>s. s\<lparr>fat := (fat s)\<lparr>numHandles := n\<rparr>\<rparr>) (read_to_clusterBuffer st lba k)"
  by (cases "ata_readblocks (ata st) (clusterBuffer st) lba k")
     (auto simp: read_to_clusterBuffer_def)

lemma read_final_cluster_numHandles:
  "read_final_cluster (st\<lparr>fat := (fat st)\<lparr>numHandles := n\<rparr>\<rparr>) out c rd toRead =
     map_sum id (\<lambda>(s, r). (s\<lparr>fat := (fat s)\<lparr>numHandles := n\<rparr>\<rparr>, r))
       (read_final_cluster st out c rd toRead)"
proof (cases "fat32_findnextcluster st c")
  case (Inl e)
  then show ?thesis
    by (simp add: read_final_cluster_def fat32_findnextcluster_numHandles)
next
  case (Inr p)
  obtain st1 c1 where p: "p = (st1, c1)" by (cases p)
  have lba: "\<And>x. calc_lba (fat st1\<lparr>numHandles := n\<rparr>) x False = calc_lba (fat st1) x False"
    by (simp add: calc_lba_def)
  show ?thesis
    by (cases "read_to_clusterBuffer st1 (calc_lba (fat st1) c1 False)
                 (ucast (blks_per_cluster (fat st1)))")
       (simp_all add: read_final_cluster_def fat32_findnextcluster_numHandles Inr p lba
          read_to_clusterBuffer_numHandles)
qed

lemma read_whole_clusters_numHandles_Some:
  assumes "read_whole_clusters st0 out0 c0 rd0 bound0 = Some r0"
  shows "read_whole_clusters (st0\<lparr>fat := (fat st0)\<lparr>numHandles := n\<rparr>\<rparr>) out0 c0 rd0 bound0 =
           Some (map_sum id (\<lambda>(s, r). (s\<lparr>fat := (fat s)\<lparr>numHandles := n\<rparr>\<rparr>, r)) r0)"
proof (rule read_whole_clusters.raw_induct
    [where P = "\<lambda>st out c rd bound r.
        read_whole_clusters (st\<lparr>fat := (fat st)\<lparr>numHandles := n\<rparr>\<rparr>) out c rd bound =
          Some (map_sum id (\<lambda>(s, r). (s\<lparr>fat := (fat s)\<lparr>numHandles := n\<rparr>\<rparr>, r)) r)",
     OF _ assms])
  fix f :: "fat_state \<Rightarrow> u8 list \<Rightarrow> u32 \<Rightarrow> u32 \<Rightarrow> u32 \<Rightarrow>
              ((fat_state \<times> u8 list \<times> u32 \<times> u32) fat_outcome) option"
    and st :: fat_state and out c rd bound r
  assume IH: "\<And>st out c rd bound r. f st out c rd bound = Some r \<Longrightarrow>
     read_whole_clusters (st\<lparr>fat := (fat st)\<lparr>numHandles := n\<rparr>\<rparr>) out c rd bound =
       Some (map_sum id (\<lambda>(s, r). (s\<lparr>fat := (fat s)\<lparr>numHandles := n\<rparr>\<rparr>, r)) r)"
  assume body: "(if rd < bound then
        (case fat32_findnextcluster st c of
           Inl e \<Rightarrow> Some (Inl e)
         | Inr (st1, c1) \<Rightarrow>
             (case read_to_clusterBuffer st1 (calc_lba (fat st1) c1 False)
                     (ucast (blks_per_cluster (fat st1))) of
                Inl e \<Rightarrow> Some (Inl e)
              | Inr st2 \<Rightarrow>
                  f st2
                    (out @ take (unat (bytes_per_cluster (fat st2))) (concat (clusterBuffer st2)))
                    c1 (rd + bytes_per_cluster (fat st2)) bound))
      else Some (Inr (st, out, c, rd))) = Some r"
  show "read_whole_clusters (st\<lparr>fat := (fat st)\<lparr>numHandles := n\<rparr>\<rparr>) out c rd bound =
          Some (map_sum id (\<lambda>(s, r). (s\<lparr>fat := (fat s)\<lparr>numHandles := n\<rparr>\<rparr>, r)) r)"
  proof (cases "rd < bound")
    case False
    from body have "r = Inr (st, out, c, rd)" unfolding if_not_P [OF False] by simp
    with False show ?thesis by (subst read_whole_clusters.simps) simp
  next
    case True
    note body1 = body [unfolded if_P [OF True]]
    show ?thesis
    proof (cases "fat32_findnextcluster st c")
      case (Inl e)
      from body1 have "r = Inl e" unfolding Inl sum.case by simp
      with True Inl show ?thesis
        by (subst read_whole_clusters.simps) (simp add: fat32_findnextcluster_numHandles)
    next
      case (Inr p)
      obtain st1 c1 where p: "p = (st1, c1)" by (cases p)
      note body2 = body1 [unfolded Inr p sum.case prod.case]
      show ?thesis
      proof (cases "read_to_clusterBuffer st1 (calc_lba (fat st1) c1 False)
                      (ucast (blks_per_cluster (fat st1)))")
        case (Inl e)
        from body2 have "r = Inl e" unfolding Inl sum.case by simp
        with True Inr p Inl show ?thesis
          by (subst read_whole_clusters.simps)
             (simp add: fat32_findnextcluster_numHandles read_to_clusterBuffer_numHandles
                calc_lba_def)
      next
        case st2: (Inr st2)
        note body3 = body2 [unfolded st2 sum.case]
        from IH [OF body3] True Inr p st2 show ?thesis
          by (subst read_whole_clusters.simps)
             (simp add: fat32_findnextcluster_numHandles read_to_clusterBuffer_numHandles
                calc_lba_def)
      qed
    qed
  qed
qed

lemma numHandles_restore:
  "st\<lparr>fat := (fat st)\<lparr>numHandles := n\<rparr>\<rparr>\<lparr>fat := (fat (st\<lparr>fat := (fat st)\<lparr>numHandles := n\<rparr>\<rparr>))
      \<lparr>numHandles := numHandles (fat st)\<rparr>\<rparr> = (st :: fat_state)"
  by simp

lemma read_whole_clusters_numHandles:
  "read_whole_clusters (st\<lparr>fat := (fat st)\<lparr>numHandles := n\<rparr>\<rparr>) out c rd bound =
     map_option (map_sum id (\<lambda>(s, r). (s\<lparr>fat := (fat s)\<lparr>numHandles := n\<rparr>\<rparr>, r)))
       (read_whole_clusters (st :: fat_state) out c rd bound)"
proof (cases "read_whole_clusters st out c rd bound")
  case (Some r)
  then show ?thesis by (simp add: read_whole_clusters_numHandles_Some)
next
  case None
  have "read_whole_clusters (st\<lparr>fat := (fat st)\<lparr>numHandles := n\<rparr>\<rparr>) out c rd bound = None"
  proof (cases "read_whole_clusters (st\<lparr>fat := (fat st)\<lparr>numHandles := n\<rparr>\<rparr>) out c rd bound")
    case (Some r')
    from read_whole_clusters_numHandles_Some [OF Some, of "numHandles (fat st)"]
    have "read_whole_clusters st out c rd bound \<noteq> None"
      unfolding numHandles_restore by simp
    with None show ?thesis by simp
  qed simp
  with None show ?thesis by simp
qed

lemma calc_lba_numHandles:
  "calc_lba (fs\<lparr>numHandles := n\<rparr>) c r = calc_lba fs c r"
  by (simp add: calc_lba_def)

lemma file_of_numHandles:
  "file_of (fs\<lparr>numHandles := n\<rparr>) fd = file_of fs fd"
  by (simp add: file_of_def)

lemma set_file_numHandles:
  "set_file (fs\<lparr>numHandles := n\<rparr>) fd f = (set_file fs fd f)\<lparr>numHandles := n\<rparr>"
  by (simp add: set_file_def)

lemma fat32_read_numHandles:
  fixes st :: fat_state
  shows "fat32_read (st\<lparr>fat := (fat st)\<lparr>numHandles := n\<rparr>\<rparr>) sz nmemb fd =
     map_option (map_sum id (\<lambda>(c, out, s). (c, out, s\<lparr>fat := (fat s)\<lparr>numHandles := n\<rparr>\<rparr>)))
       (fat32_read st sz nmemb fd)"
proof (cases "file_of (fat st) fd")
  case None
  then show ?thesis by (simp add: fat32_read_def file_of_numHandles)
next
  case (Some f)
  show ?thesis
    by (simp add: fat32_read_def Let_def Some file_of_numHandles ffwd_clusters_numHandles
          read_to_clusterBuffer_numHandles read_whole_clusters_numHandles
          read_final_cluster_numHandles calc_lba_numHandles set_file_numHandles
          case_sum_map_sum split_beta option.case_eq_if option.map_sel
          split: sum.split)
qed

subsection \<open>Closing\<close>

lemma fat32_close_numHandles:
  "fat32_close fs fd =
     fs\<lparr>numHandles := (if (word_of_int fd :: u32) = numHandles fs - 1 then numHandles fs - 1
                        else numHandles fs)\<rparr>"
  by (simp add: fat32_close_def)

lemma seek_to_numHandles:
  "seek_to (fs\<lparr>numHandles := n\<rparr>) fd f offset =
     (fst (seek_to fs fd f offset), (snd (seek_to fs fd f offset))\<lparr>numHandles := n\<rparr>)"
  by (simp add: seek_to_def set_file_numHandles)

lemma seek_to_keeps_numHandles:
  "numHandles (snd (seek_to fs fd f offset)) = numHandles fs"
  by (simp add: seek_to_def set_file_def)

lemma fat32_seek_close:
  "fat32_seek (fat32_close fs fd) fd' offset w =
     map_option (\<lambda>(r, fs'). (r, fat32_close fs' fd)) (fat32_seek fs fd' offset w)"
proof -
  have c: "\<And>f off. (\<lambda>(r, fs'). (r, fat32_close fs' fd)) (seek_to fs fd' f off) =
             seek_to (fat32_close fs fd) fd' f off"
    by (simp add: fat32_close_def seek_to_numHandles seek_to_keeps_numHandles split_beta)
  show ?thesis
  proof (cases "file_of fs fd'")
    case None
    then have "file_of (fat32_close fs fd) fd' = None"
      by (simp add: fat32_close_def file_of_numHandles)
    with None show ?thesis
      by (cases w) (simp_all add: fat32_seek_def)
  next
    case (Some f)
    then have "file_of (fat32_close fs fd) fd' = Some f"
      by (simp add: fat32_close_def file_of_numHandles)
    with Some show ?thesis
      by (cases w) (simp_all add: fat32_seek_def c)
  qed
qed

lemma fat32_read_close:
  fixes st :: fat_state
  shows "fat32_read (st\<lparr>fat := fat32_close (fat st) fd\<rparr>) sz nmemb fd' =
     map_option (map_sum id (\<lambda>(c, out, s). (c, out, s\<lparr>fat := fat32_close (fat s) fd\<rparr>)))
       (fat32_read st sz nmemb fd')"
proof -
  define k where "k = (if (word_of_int fd :: u32) = numHandles (fat st) - 1
                       then numHandles (fat st) - 1 else numHandles (fat st))"
  have close: "fat32_close (fat st) fd = (fat st)\<lparr>numHandles := k\<rparr>"
    by (simp add: k_def fat32_close_def)
  show ?thesis
  proof (cases "fat32_read st sz nmemb fd'")
    case None
    then show ?thesis by (simp add: close fat32_read_numHandles)
  next
    case (Some r)
    show ?thesis
    proof (cases r)
      case (Inl e)
      with Some show ?thesis by (simp add: close fat32_read_numHandles)
    next
      case (Inr x)
      obtain c out s where x: "x = (c, out, s)" by (cases x)
      from Some Inr x obtain f where f: "file_of (fat st) fd' = Some f"
        by (cases "file_of (fat st) fd'") (simp_all add: fat32_read_def)
      from Some Inr x have "fat32_read st sz nmemb fd' = Some (Inr (c, out, s))" by simp
      from fat32_read_fat [OF this f] have "numHandles (fat s) = numHandles (fat st)"
        by (simp add: set_file_def)
      then have "fat32_close (fat s) fd = (fat s)\<lparr>numHandles := k\<rparr>"
        by (simp add: k_def fat32_close_def)
      with Some Inr x show ?thesis by (simp add: close fat32_read_numHandles)
    qed
  qed
qed

lemma fat32_open_close:
  assumes "numHandles fs < of_nat MAX_HANDLES"
  shows "fat32_close (snd (fat32_open fs (Some found))) (fst (fat32_open fs (Some found))) =
           (snd (fat32_open fs (Some found)))\<lparr>numHandles := numHandles fs\<rparr>"
proof -
  have lt: "numHandles fs < 10" using assms by (simp add: MAX_HANDLES_def)
  have "(word_of_int (sint (numHandles fs)) :: u32) = numHandles fs" by simp
  with assms show ?thesis by (simp add: fat32_open_def fat32_close_def)
qed

text \<open>
  Claim C9. \<open>fat32_close\<close> never writes to the handle table. It lowers the handle count
  by one exactly when the descriptor is the last one counted (\<open>numHandles - 1\<close>, which is
  the descriptor the latest successful \<open>fat32_open\<close> returned, so closing that one
  restores the count from before the open); for any other descriptor the volume structure
  is left as it was. After a close of any descriptor \<open>fd\<close>, every descriptor \<open>fd'\<close> (\<open>fd\<close>
  itself among them) still designates the same handle, and \<open>fat32_tell\<close>, \<open>fat32_seek\<close>
  and \<open>fat32_read\<close> on it return what they return without the close and leave the state
  they leave without it, but for the handle count as the close sets it.
\<close>

theorem fat32_close_frame:
  fixes st :: fat_state
  shows
  "filehandles (fat32_close fs fd) = filehandles fs \<and>
   numHandles (fat32_close fs fd) =
     (if (word_of_int fd :: u32) = numHandles fs - 1 then numHandles fs - 1 else numHandles fs) \<and>
   ((word_of_int fd :: u32) \<noteq> numHandles fs - 1 \<longrightarrow> fat32_close fs fd = fs) \<and>
   (numHandles fs < of_nat MAX_HANDLES \<longrightarrow>
      fat32_close (snd (fat32_open fs (Some found))) (fst (fat32_open fs (Some found))) =
        (snd (fat32_open fs (Some found)))\<lparr>numHandles := numHandles fs\<rparr>) \<and>
   file_of (fat32_close fs fd) fd' = file_of fs fd' \<and>
   fat32_tell (fat32_close fs fd) fd' = fat32_tell fs fd' \<and>
   fat32_seek (fat32_close fs fd) fd' offset w =
     map_option (\<lambda>(r, fs'). (r, fat32_close fs' fd)) (fat32_seek fs fd' offset w) \<and>
   fat32_read (st\<lparr>fat := fat32_close (fat st) fd\<rparr>) sz nmemb fd' =
     map_option (map_sum id (\<lambda>(c, out, s). (c, out, s\<lparr>fat := fat32_close (fat s) fd\<rparr>)))
       (fat32_read st sz nmemb fd')"
proof -
  have a: "filehandles (fat32_close fs fd) = filehandles fs"
    by (simp add: fat32_close_def)
  have b: "numHandles (fat32_close fs fd) =
     (if (word_of_int fd :: u32) = numHandles fs - 1 then numHandles fs - 1 else numHandles fs)"
    by (simp add: fat32_close_def)
  have c: "(word_of_int fd :: u32) \<noteq> numHandles fs - 1 \<longrightarrow> fat32_close fs fd = fs"
    by (simp add: fat32_close_def)
  have d: "file_of (fat32_close fs fd) fd' = file_of fs fd'"
    by (simp add: fat32_close_def file_of_numHandles)
  have e: "fat32_tell (fat32_close fs fd) fd' = fat32_tell fs fd'"
    by (simp add: fat32_tell_def d)
  from a b c d e fat32_open_close [of fs found] fat32_seek_close [of fs fd fd' offset w]
    fat32_read_close [of st fd sz nmemb fd']
  show ?thesis by blast
qed

text \<open>
  Two files open, descriptors 0 and 1, the second at position 7. Closing descriptor 0
  changes nothing. Closing descriptor 1 lowers the count from 2 to 1 and keeps the table,
  and descriptor 1 still tells position 7 and seeks.
\<close>

theorem fat32_close_frame_witness:
  "(word_of_int 0 :: u32) \<noteq>
     numHandles (snd (fat32_open (snd (fat32_open fat_cleared
       (Some \<lparr>file_cluster = 2, file_opened = 1, file_position = 0, file_length = 10\<rparr>)))
       (Some \<lparr>file_cluster = 3, file_opened = 1, file_position = 7, file_length = 20\<rparr>))) - 1 \<and>
   fat32_close (snd (fat32_open (snd (fat32_open fat_cleared
       (Some \<lparr>file_cluster = 2, file_opened = 1, file_position = 0, file_length = 10\<rparr>)))
       (Some \<lparr>file_cluster = 3, file_opened = 1, file_position = 7, file_length = 20\<rparr>))) 0 =
     snd (fat32_open (snd (fat32_open fat_cleared
       (Some \<lparr>file_cluster = 2, file_opened = 1, file_position = 0, file_length = 10\<rparr>)))
       (Some \<lparr>file_cluster = 3, file_opened = 1, file_position = 7, file_length = 20\<rparr>)) \<and>
   numHandles (snd (fat32_open fat_cleared
       (Some \<lparr>file_cluster = 2, file_opened = 1, file_position = 0, file_length = 10\<rparr>)))
     < of_nat MAX_HANDLES \<and>
   fst (fat32_open (snd (fat32_open fat_cleared
       (Some \<lparr>file_cluster = 2, file_opened = 1, file_position = 0, file_length = 10\<rparr>)))
       (Some \<lparr>file_cluster = 3, file_opened = 1, file_position = 7, file_length = 20\<rparr>)) = 1 \<and>
   numHandles (fat32_close (snd (fat32_open (snd (fat32_open fat_cleared
       (Some \<lparr>file_cluster = 2, file_opened = 1, file_position = 0, file_length = 10\<rparr>)))
       (Some \<lparr>file_cluster = 3, file_opened = 1, file_position = 7, file_length = 20\<rparr>))) 1) = 1 \<and>
   fat32_close (snd (fat32_open (snd (fat32_open fat_cleared
       (Some \<lparr>file_cluster = 2, file_opened = 1, file_position = 0, file_length = 10\<rparr>)))
       (Some \<lparr>file_cluster = 3, file_opened = 1, file_position = 7, file_length = 20\<rparr>))) 1 =
     (snd (fat32_open (snd (fat32_open fat_cleared
       (Some \<lparr>file_cluster = 2, file_opened = 1, file_position = 0, file_length = 10\<rparr>)))
       (Some \<lparr>file_cluster = 3, file_opened = 1, file_position = 7, file_length = 20\<rparr>)))
       \<lparr>numHandles := 1\<rparr> \<and>
   fat32_tell (fat32_close (snd (fat32_open (snd (fat32_open fat_cleared
       (Some \<lparr>file_cluster = 2, file_opened = 1, file_position = 0, file_length = 10\<rparr>)))
       (Some \<lparr>file_cluster = 3, file_opened = 1, file_position = 7, file_length = 20\<rparr>))) 1) 1 =
     Some 7"
proof -
  let ?f1 = "\<lparr>file_cluster = 2, file_opened = 1, file_position = 0, file_length = 10\<rparr>"
  let ?f2 = "\<lparr>file_cluster = 3, file_opened = 1, file_position = 7, file_length = 20\<rparr>"
  let ?fs1 = "snd (fat32_open fat_cleared (Some ?f1))"
  let ?fs2 = "snd (fat32_open ?fs1 (Some ?f2))"
  have n1: "numHandles ?fs1 = 1"
    by (simp add: fat32_open_def fat_cleared_def MAX_HANDLES_def)
  have n2: "numHandles ?fs2 = 2"
    by (simp add: fat32_open_def fat_cleared_def MAX_HANDLES_def)
  have d: "fst (fat32_open ?fs1 (Some ?f2)) = 1"
    by (simp add: fat32_open_def fat_cleared_def MAX_HANDLES_def)
  have h0: "(word_of_int 0 :: u32) \<noteq> numHandles ?fs2 - 1"
    by (simp add: n2)
  have lt: "numHandles ?fs1 < of_nat MAX_HANDLES"
    by (simp add: n1 MAX_HANDLES_def)
  have t: "fat32_tell ?fs2 1 = Some 7"
    by (simp add: fat32_tell_def file_of_def fat32_open_def fat_cleared_def MAX_HANDLES_def)
  note c0 = fat32_close_frame [where fs = ?fs2 and fd = 0 and fd' = 1]
  note c1 = fat32_close_frame [where fs = ?fs2 and fd = 1 and fd' = 1]
  from c0 h0 have k0: "fat32_close ?fs2 0 = ?fs2" by blast
  from c1 have k1: "numHandles (fat32_close ?fs2 1) = 1" by (simp add: n2)
  from c1 t have k2: "fat32_tell (fat32_close ?fs2 1) 1 = Some 7" by simp
  note c2 = fat32_close_frame [where fs = ?fs1 and found = ?f2]
  from c2 lt have "fat32_close ?fs2 (fst (fat32_open ?fs1 (Some ?f2))) =
      ?fs2\<lparr>numHandles := numHandles ?fs1\<rparr>" by blast
  then have k3: "fat32_close ?fs2 1 = ?fs2\<lparr>numHandles := 1\<rparr>"
    unfolding d n1 .
  from h0 k0 lt d k1 k2 k3 show ?thesis by blast
qed

subsection \<open>How much a read transfers\<close>

text \<open>
  Claim C1. A read is to transfer \<open>min (size * nmemb) (length - position)\<close> bytes and to
  leave the position at most at \<open>length\<close>. \<open>fat32_read\<close> clamps the request to
  \<open>length + position\<close> instead: on a volume of 512-byte clusters, a ten-byte file read
  at position 5 with \<open>size = 1\<close> and \<open>nmemb = 10\<close> returns 10, hands out the ten bytes
  5 to 14 of the cluster (five of them behind the end of the file), and leaves the
  position at 15, where the claim has 5 bytes and position 10.
\<close>

theorem fat32_read_past_end:
  "(case fat32_read
      \<lparr>fat = snd (fat32_open
         (fat_cleared\<lparr>bytes_per_cluster := 512, bytes_per_sector := 512, blks_per_sector := 1,
            blks_per_cluster := 1, number_of_reserved_sectors := 1, sectors_per_cluster := 1,
            entries_per_sector := 16, number_of_fats := 2, sectors_per_fat := 1,
            bits_per_fat_entry := 16\<rparr>)
         (Some \<lparr>file_cluster = 2, file_opened = 1, file_position = 5, file_length = 10\<rparr>)),
       ata = ata_boot_state 0 0 (\<lambda>s. Some ([0, 1, 2, 3, 4, 5, 6, 7, 8, 9, 10, 11, 12, 13, 14, 15] @ replicate 496 0)),
       clusterBuffer = [replicate 512 0], gFATSectorBuf = [replicate 512 0],
       gSecNumInFATBuf = NOT 0\<rparr> 1 10 0 of
      Some (Inr (n, out, st')) \<Rightarrow>
        n = 10 \<and> out = [5, 6, 7, 8, 9, 10, 11, 12, 13, 14] \<and>
        file_of (fat st') 0 =
          Some \<lparr>file_cluster = 2, file_opened = 1, file_position = 15, file_length = 10\<rparr>
    | _ \<Rightarrow> False)"
  by code_simp

subsection \<open>Mounting a volume\<close>






subsection \<open>Long file names\<close>

lemma ucast_low_byte:
  fixes c :: u16
  shows "(ucast (c AND 0x00FF) :: u8) = ucast c"
proof -
  have m: "(0x00FF :: u16) = mask 8" by (simp add: mask_eq_exp_minus_1)
  show ?thesis unfolding m by (rule bit_eqI) (auto simp: bit_simps)
qed

lemma ucs2cpy_spec:
  "d + n \<le> length dest \<Longrightarrow>
   ucs2cpy dest d src s n u =
     (take d dest @ map (\<lambda>i. ucs2_ascii (getLE16 src (s + 2 * i))) [0..<n] @ drop (d + n) dest,
      u + length (filter (\<lambda>i. \<not> ucs2_known (getLE16 src (s + 2 * i))) [0..<n]))"
proof (induction n arbitrary: dest d s u)
  case 0
  then show ?case by simp
next
  case (Suc n)
  have up: "[0..<Suc n] = 0 # map Suc [0..<n]"
    by (simp add: upt_conv_Cons map_Suc_upt del: upt_Suc)
  have d: "d < length dest" using Suc.prems by simp
  have tk: "\<And>c. take (Suc d) (dest[d := c]) = take d dest @ [c]"
    using d by (simp add: take_Suc_conv_app_nth)
  have dr: "\<And>c. drop (Suc d + n) (dest[d := c]) = drop (d + Suc n) dest"
    by simp
  have len: "\<And>c. Suc d + n \<le> length (dest[d := c])" using Suc.prems by simp
  show ?case
    unfolding up
    by (simp add: Suc.IH [OF len] tk dr ucs2_ascii_def ucs2_known_def ucast_low_byte o_def
          del: upt_Suc)
qed

lemma put_twice:
  assumes "d + length xs + length ys \<le> length dest"
  shows "take (d + length xs) (take d dest @ xs @ drop (d + length xs) dest) @ ys @
           drop (d + length xs + length ys) (take d dest @ xs @ drop (d + length xs) dest) =
         take d dest @ (xs @ ys) @ drop (d + length (xs @ ys)) dest"
proof -
  have e: "length dest \<le> d \<Longrightarrow> xs = []" using assms by (cases xs) auto
  show ?thesis
    using assms e by (auto simp: min_def add.commute add.left_commute)
qed

lemma ucs2cpy_units:
  assumes "d + n \<le> length dest" and "us = map (\<lambda>i. getLE16 src (s + 2 * i)) [0..<n]"
  shows "ucs2cpy dest d src s n 0 =
     (take d dest @ map ucs2_ascii us @ drop (d + length us) dest,
      length (filter (\<lambda>c. \<not> ucs2_known c) us))"
  using assms by (simp add: ucs2cpy_spec filter_map o_def)

lemma no_unknown:
  "(length (filter (\<lambda>c. \<not> ucs2_known c) us) = 0) = list_all ucs2_known us"
  by (induction us) auto

lemma lfn_condition:
  "(0 \<le> lfn_offset e \<and> lfn_offset e < 256 - 1 - 13 \<and> e ! 0 AND 0x80 = 0) = lfn_index_ok e"
proof -
  have "lfn_offset e = 13 * (int (lfn_index e) - 1)"
    by (simp add: lfn_offset_def lfn_index_def)
  then show ?thesis
    unfolding lfn_index_ok_def by auto
qed

lemma lfn_offset_nat:
  "nat (lfn_offset e) = 13 * (lfn_index e - 1)"
proof -
  have "lfn_offset e = 13 * (int (lfn_index e) - 1)"
    by (simp add: lfn_offset_def lfn_index_def)
  then show ?thesis by (cases "lfn_index e") simp_all
qed

lemma lfn_units_split:
  "lfn_code_units e =
     (map (\<lambda>i. getLE16 e (1 + 2 * i)) [0..<5] @ map (\<lambda>i. getLE16 e (14 + 2 * i)) [0..<6]) @
     map (\<lambda>i. getLE16 e (28 + 2 * i)) [0..<2]"
proof -
  have "[0..<5] = [0, 1, 2, 3, 4 :: nat]" "[0..<6] = [0, 1, 2, 3, 4, 5 :: nat]"
    "[0..<2] = [0, 1 :: nat]"
    by code_simp+
  then show ?thesis by (simp add: lfn_code_units_def)
qed

lemma lfn_name_spec:
  assumes ok: "lfn_index_ok e" and len: "length ln = 256"
  shows "lfn_name e ln ck True = (lfn_put e ln, ck, list_all ucs2_known (lfn_code_units e))"
proof -
  define d where "d = 13 * (lfn_index e - 1)"
  define A where "A = map (\<lambda>i. getLE16 e (1 + 2 * i)) [0..<5]"
  define B where "B = map (\<lambda>i. getLE16 e (14 + 2 * i)) [0..<6]"
  define C where "C = map (\<lambda>i. getLE16 e (28 + 2 * i)) [0..<2]"
  have lA: "length A = 5" and lB: "length B = 6" and lC: "length C = 2"
    by (simp_all add: A_def B_def C_def)
  have db: "d + 13 \<le> length ln"
    using ok len unfolding d_def lfn_index_ok_def by arith
  define L1 where "L1 = take d ln @ map ucs2_ascii A @ drop (d + 5) ln"
  define L2 where "L2 = take d ln @ map ucs2_ascii (A @ B) @ drop (d + 11) ln"
  have len1: "length L1 = length ln" using db by (simp add: L1_def lA)
  have len2: "length L2 = length ln" using db by (simp add: L2_def lA lB)
  have b1: "d + 5 \<le> length ln" and b2: "d + 5 + 6 \<le> length L1"
    and b3: "d + 11 + 2 \<le> length L2"
    using db len1 len2 by simp_all
  have c1: "ucs2cpy ln d e 1 5 0 = (L1, length (filter (\<lambda>c. \<not> ucs2_known c) A))"
    unfolding L1_def using ucs2cpy_units [OF b1 A_def, unfolded lA] .
  have "ucs2cpy L1 (d + 5) e 14 6 0 =
      (take (d + 5) L1 @ map ucs2_ascii B @ drop (d + 5 + 6) L1,
       length (filter (\<lambda>c. \<not> ucs2_known c) B))"
    using ucs2cpy_units [OF b2 B_def, unfolded lB] .
  moreover have "take (d + 5) L1 @ map ucs2_ascii B @ drop (d + 5 + 6) L1 = L2"
    using put_twice [of d "map ucs2_ascii A" "map ucs2_ascii B" ln] db
    by (simp add: L1_def L2_def lA lB)
  ultimately have c2: "ucs2cpy L1 (d + 5) e 14 6 0 =
      (L2, length (filter (\<lambda>c. \<not> ucs2_known c) B))"
    by simp
  have "ucs2cpy L2 (d + 11) e 28 2 0 =
      (take (d + 11) L2 @ map ucs2_ascii C @ drop (d + 11 + 2) L2,
       length (filter (\<lambda>c. \<not> ucs2_known c) C))"
    using ucs2cpy_units [OF b3 C_def, unfolded lC] .
  moreover have "take (d + 11) L2 @ map ucs2_ascii C @ drop (d + 11 + 2) L2 =
      take d ln @ map ucs2_ascii ((A @ B) @ C) @ drop (d + 13) ln"
    using put_twice [of d "map ucs2_ascii (A @ B)" "map ucs2_ascii C" ln] db
    by (simp add: L2_def lA lB lC)
  ultimately have c3: "ucs2cpy L2 (d + 11) e 28 2 0 =
      (take d ln @ map ucs2_ascii ((A @ B) @ C) @ drop (d + 13) ln,
       length (filter (\<lambda>c. \<not> ucs2_known c) C))"
    by simp
  have units: "lfn_code_units e = (A @ B) @ C"
    unfolding A_def B_def C_def by (rule lfn_units_split)
  have good: "(\<not> 0 < length (filter (\<lambda>c. \<not> ucs2_known c) A) +
                     length (filter (\<lambda>c. \<not> ucs2_known c) B) +
                     length (filter (\<lambda>c. \<not> ucs2_known c) C)) =
              list_all ucs2_known (lfn_code_units e)"
    unfolding units using no_unknown [of A] no_unknown [of B] no_unknown [of C] by simp
  show ?thesis
    unfolding lfn_name_def lfn_offset_nat d_def [symmetric] if_True c1 prod.case c2 c3 good
      lfn_put_def units ..
qed

lemma lfn_put_length:
  assumes "lfn_index_ok e" and "length ln = 256"
  shows "length (lfn_put e ln) = 256"
proof -
  have "13 * (lfn_index e - 1) + 13 \<le> length ln"
    using assms unfolding lfn_index_ok_def by arith
  then show ?thesis
    using assms(2) by (simp add: lfn_put_def lfn_code_units_def)
qed

lemma lfn_slot_spec:
  assumes "length ln = 256"
  shows "lfn_slot e ln ck ng =
     (if lfn_index_ok e then
        (if lfn_flagged e then
           (lfn_put e (replicate 256 0), e ! 13, list_all ucs2_known (lfn_code_units e))
         else if ng then (lfn_put e ln, ck, list_all ucs2_known (lfn_code_units e))
         else (ln, ck, False))
      else (ln, ck, False))"
proof (cases "lfn_index_ok e")
  case False
  then show ?thesis
    unfolding lfn_slot_def lfn_condition by simp
next
  case True
  show ?thesis
  proof (cases "lfn_flagged e")
    case f: True
    then have "e ! 0 AND 0x40 \<noteq> 0" by (simp add: lfn_flagged_def)
    with True f show ?thesis
      unfolding lfn_slot_def lfn_condition by (simp add: lfn_name_spec)
  next
    case f: False
    then have z: "e ! 0 AND 0x40 = 0" by (simp add: lfn_flagged_def)
    show ?thesis
    proof (cases ng)
      case ng: True
      with True f z assms show ?thesis
        unfolding lfn_slot_def lfn_condition by (simp add: lfn_name_spec)
    next
      case ng: False
      with True f z show ?thesis
        unfolding lfn_slot_def lfn_condition by (simp add: lfn_name_def)
    qed
  qed
qed

lemma lfn_slot_length:
  assumes "length ln = 256"
  shows "length (fst (lfn_slot e ln ck ng)) = 256"
  using assms by (simp add: lfn_slot_spec lfn_put_length)

lemma loop_prefix:
  assumes "\<forall>e\<in>set a. is_deleted e \<or> is_lfn e" and "length ln = 256"
  shows "\<exists>ln' ck' ng'. length ln' = 256 \<and>
           (\<forall>es. complete_entry_loop fs (a @ es) ln ck ng =
                 complete_entry_loop fs es ln' ck' ng')"
  using assms
proof (induction a arbitrary: ln ck ng)
  case Nil
  then show ?case by auto
next
  case (Cons e a)
  from Cons.prems have rest: "\<forall>e\<in>set a. is_deleted e \<or> is_lfn e" by simp
  from Cons.prems have "is_deleted e \<or> is_lfn e" by simp
  then show ?case
  proof
    assume d: "is_deleted e"
    then have step: "\<And>es. complete_entry_loop fs ((e # a) @ es) ln ck ng =
        complete_entry_loop fs (a @ es) ln ck ng"
      by (simp add: is_deleted_def)
    from Cons.IH [OF rest Cons.prems(2), of ck ng] show ?thesis
      unfolding step .
  next
    assume l: "is_lfn e"
    obtain ln1 ck1 ng1 where sl: "lfn_slot e ln ck ng = (ln1, ck1, ng1)"
      by (cases "lfn_slot e ln ck ng") auto
    have len1: "length ln1 = 256"
      using lfn_slot_length [OF Cons.prems(2), of e ck ng] sl by simp
    from l have step: "\<And>es. complete_entry_loop fs ((e # a) @ es) ln ck ng =
        complete_entry_loop fs (a @ es) ln1 ck1 ng1"
      by (simp add: is_lfn_def sl)
    from Cons.IH [OF rest len1, of ck1 ng1] show ?thesis
      unfolding step .
  qed
qed

lemma loop_unflagged:
  assumes "\<forall>e\<in>set b. is_deleted e \<or> (is_lfn e \<and> \<not> lfn_flagged e)" and "length ln = 256"
  shows "\<exists>ln'. length ln' = 256 \<and>
           (ng \<and> list_all lfn_good (filter is_lfn b) \<longrightarrow>
              ln' = foldl (\<lambda>l x. lfn_put x l) ln (filter is_lfn b)) \<and>
           (\<forall>es. complete_entry_loop fs (b @ es) ln ck ng =
                 complete_entry_loop fs es ln' ck (ng \<and> list_all lfn_good (filter is_lfn b)))"
  using assms
proof (induction b arbitrary: ln ng)
  case Nil
  then show ?case by auto
next
  case (Cons e b)
  from Cons.prems have rest: "\<forall>e\<in>set b. is_deleted e \<or> (is_lfn e \<and> \<not> lfn_flagged e)"
    by simp
  from Cons.prems have "is_deleted e \<or> (is_lfn e \<and> \<not> lfn_flagged e)" by simp
  then show ?case
  proof
    assume d: "is_deleted e"
    then have nl: "\<not> is_lfn e" by (simp add: is_deleted_def is_lfn_def)
    from d have step: "\<And>es. complete_entry_loop fs ((e # b) @ es) ln ck ng =
        complete_entry_loop fs (b @ es) ln ck ng"
      by (simp add: is_deleted_def)
    from Cons.IH [OF rest Cons.prems(2), of ng] show ?thesis
      unfolding step using nl by simp
  next
    assume "is_lfn e \<and> \<not> lfn_flagged e"
    then have l: "is_lfn e" and nf: "\<not> lfn_flagged e" by simp_all
    define ng1 where "ng1 = (ng \<and> lfn_good e)"
    define ln1 where "ln1 = (if ng \<and> lfn_index_ok e then lfn_put e ln else ln)"
    have sl: "lfn_slot e ln ck ng = (ln1, ck, ng1)"
      using nf by (auto simp: lfn_slot_spec [OF Cons.prems(2)] ln1_def ng1_def lfn_good_def)
    have len1: "length ln1 = 256"
      using Cons.prems(2) by (simp add: ln1_def lfn_put_length)
    from l have step: "\<And>es. complete_entry_loop fs ((e # b) @ es) ln ck ng =
        complete_entry_loop fs (b @ es) ln1 ck ng1"
      by (simp add: is_lfn_def sl)
    from Cons.IH [OF rest len1, of ng1] obtain ln' where
      a1: "length ln' = 256"
      and a2: "ng1 \<and> list_all lfn_good (filter is_lfn b) \<longrightarrow>
                 ln' = foldl (\<lambda>l x. lfn_put x l) ln1 (filter is_lfn b)"
      and a3: "\<forall>es. complete_entry_loop fs (b @ es) ln1 ck ng1 =
                 complete_entry_loop fs es ln' ck (ng1 \<and> list_all lfn_good (filter is_lfn b))"
      by blast
    have g: "(ng1 \<and> list_all lfn_good (filter is_lfn b)) =
             (ng \<and> list_all lfn_good (filter is_lfn (e # b)))"
      using l by (auto simp: ng1_def)
    have f: "ng \<and> list_all lfn_good (filter is_lfn (e # b)) \<longrightarrow>
               ln' = foldl (\<lambda>l x. lfn_put x l) ln (filter is_lfn (e # b))"
      using a2 l by (auto simp: ng1_def ln1_def lfn_good_def)
    from a1 f a3 show ?thesis
      unfolding step g by blast
  qed
qed

lemma loop_short:
  assumes "is_short short"
  shows "complete_entry_loop fs (short # rest) ln ck ng =
           (Some (short_entry fs short ln ck ng), rest,
            de_longname (short_entry fs short ln ck ng))"
  using assms by (simp add: is_short_def)

text \<open>
  Claim C7, amended. Take the raw entries up to the next short entry, all of them
  deleted entries or long-name slots. The short entry is reported with its 8.3 name in
  every case. If a slot \<open>s\<close> flagged as the first of a group (bit 6 of its sequence
  byte) is followed only by unflagged slots and deleted entries \<open>b\<close>, whatever comes before
  \<open>s\<close>, the long name is attached exactly when \<open>s\<close> and every slot after it has an index
  (bits 0 to 4) from 1 to 19 with bit 7 clear and holds only code units that are
  printable ASCII (\<open>0x20\<close> to \<open>0x7E\<close>), \<open>0x0000\<close> or \<open>0xFFFF\<close>, and the checksum byte of
  \<open>s\<close>, the only one looked at, is the checksum of the short entry's name; the name is
  then the cleared buffer with the 13 characters of each slot put at 13 times its index
  less one. In every other case, and when no slot is flagged at all, the long name is the
  empty string.
\<close>

theorem lfn_attached_iff:
  assumes a: "\<forall>e\<in>set a. is_deleted e \<or> is_lfn e"
    and s: "is_lfn s \<and> lfn_flagged s"
    and b: "\<forall>e\<in>set b. is_deleted e \<or> (is_lfn e \<and> \<not> lfn_flagged e)"
    and short: "is_short short"
    and len: "length longname = 256"
  shows
  "(\<exists>de. getNextCompleteEntry fs (a @ s # b @ short # rest) longname =
           (Some de, rest, de_longname de) \<and>
         de_shortname de = short_name short \<and>
         (if list_all lfn_good (s # filter is_lfn b) \<and> s ! 13 = lfn_checksum short
          then de_longname de =
                 foldl (\<lambda>l x. lfn_put x l) (replicate 256 0) (s # filter is_lfn b)
          else de_longname de ! 0 = 0)) \<and>
   (\<exists>de. getNextCompleteEntry fs (b @ short # rest) longname =
           (Some de, rest, de_longname de) \<and>
         de_shortname de = short_name short \<and> de_longname de ! 0 = 0)"
proof -
  have second: "\<exists>de. getNextCompleteEntry fs (b @ short # rest) longname =
           (Some de, rest, de_longname de) \<and>
         de_shortname de = short_name short \<and> de_longname de ! 0 = 0"
  proof -
    from loop_unflagged [OF b len, of False fs 0] obtain ln' where
      l: "length ln' = 256"
      and r: "\<forall>es. complete_entry_loop fs (b @ es) longname 0 False =
                 complete_entry_loop fs es ln' 0 False"
      by auto
    have "getNextCompleteEntry fs (b @ short # rest) longname =
        (Some (short_entry fs short ln' 0 False), rest,
         de_longname (short_entry fs short ln' 0 False))"
      unfolding getNextCompleteEntry_def using r loop_short [OF short] by simp
    moreover have "de_shortname (short_entry fs short ln' 0 False) = short_name short"
      by (simp add: short_entry_def)
    moreover have "de_longname (short_entry fs short ln' 0 False) ! 0 = 0"
      using l by (simp add: short_entry_def)
    ultimately show ?thesis by blast
  qed
  have first: "\<exists>de. getNextCompleteEntry fs (a @ s # b @ short # rest) longname =
           (Some de, rest, de_longname de) \<and>
         de_shortname de = short_name short \<and>
         (if list_all lfn_good (s # filter is_lfn b) \<and> s ! 13 = lfn_checksum short
          then de_longname de =
                 foldl (\<lambda>l x. lfn_put x l) (replicate 256 0) (s # filter is_lfn b)
          else de_longname de ! 0 = 0)"
  proof -
    from loop_prefix [OF a len, of fs 0 False] obtain ln1 ck1 ng1 where
      l1: "length ln1 = 256"
      and r1: "\<forall>es. complete_entry_loop fs (a @ es) longname 0 False =
                 complete_entry_loop fs es ln1 ck1 ng1"
      by blast
    define ng2 where "ng2 = lfn_good s"
    define ln2 where "ln2 = (if lfn_index_ok s then lfn_put s (replicate 256 0) else ln1)"
    define ck2 where "ck2 = (if lfn_index_ok s then s ! 13 else ck1)"
    have sl: "lfn_slot s ln1 ck1 ng1 = (ln2, ck2, ng2)"
      using s by (simp add: lfn_slot_spec [OF l1] ln2_def ck2_def ng2_def lfn_good_def)
    have l2: "length ln2 = 256"
      using l1 by (simp add: ln2_def lfn_put_length)
    have r2: "\<And>es. complete_entry_loop fs (s # es) ln1 ck1 ng1 =
        complete_entry_loop fs es ln2 ck2 ng2"
      using s by (simp add: is_lfn_def sl)
    from loop_unflagged [OF b l2, of ng2 fs ck2] obtain ln3 where
      l3: "length ln3 = 256"
      and f3: "ng2 \<and> list_all lfn_good (filter is_lfn b) \<longrightarrow>
                 ln3 = foldl (\<lambda>l x. lfn_put x l) ln2 (filter is_lfn b)"
      and r3: "\<forall>es. complete_entry_loop fs (b @ es) ln2 ck2 ng2 =
                 complete_entry_loop fs es ln3 ck2 (ng2 \<and> list_all lfn_good (filter is_lfn b))"
      by blast
    define ng3 where "ng3 = (ng2 \<and> list_all lfn_good (filter is_lfn b))"
    define de where "de = short_entry fs short ln3 ck2 ng3"
    have run: "getNextCompleteEntry fs (a @ s # b @ short # rest) longname =
        (Some de, rest, de_longname de)"
      unfolding getNextCompleteEntry_def de_def ng3_def
      using r1 r2 r3 loop_short [OF short] by simp
    have sn: "de_shortname de = short_name short"
      by (simp add: de_def short_entry_def)
    have good: "ng3 = list_all lfn_good (s # filter is_lfn b)"
      by (simp add: ng3_def ng2_def)
    have name: "if list_all lfn_good (s # filter is_lfn b) \<and> s ! 13 = lfn_checksum short
          then de_longname de =
                 foldl (\<lambda>l x. lfn_put x l) (replicate 256 0) (s # filter is_lfn b)
          else de_longname de ! 0 = 0"
    proof (cases "list_all lfn_good (s # filter is_lfn b) \<and> s ! 13 = lfn_checksum short")
      case True
      then have ok: "lfn_index_ok s" by (simp add: lfn_good_def)
      from True have "ng2 \<and> list_all lfn_good (filter is_lfn b)"
        by (simp add: ng2_def)
      with f3 have "ln3 = foldl (\<lambda>l x. lfn_put x l) ln2 (filter is_lfn b)" by blast
      moreover have "ln2 = lfn_put s (replicate 256 0)" using ok by (simp add: ln2_def)
      moreover have "ck2 = lfn_checksum short" using ok True by (simp add: ck2_def)
      moreover have "ng3" using good True by simp
      ultimately have "de_longname de =
          foldl (\<lambda>l x. lfn_put x l) (replicate 256 0) (s # filter is_lfn b)"
        by (simp add: de_def short_entry_def)
      with True show ?thesis by simp
    next
      case False
      have "\<not> ng3 \<or> ck2 \<noteq> lfn_checksum short"
      proof (cases ng3)
        case True
        then have "lfn_index_ok s" using good by (simp add: lfn_good_def)
        then have "ck2 = s ! 13" by (simp add: ck2_def)
        with False good True show ?thesis by simp
      qed simp
      then have "de_longname de = ln3[0 := 0]"
        by (auto simp: de_def short_entry_def)
      then have "de_longname de ! 0 = 0" using l3 by simp
      then show ?thesis unfolding if_not_P [OF False] .
    qed
    from run sn name show ?thesis by blast
  qed
  from first second show ?thesis by blast
qed

text \<open>
  The name \<open>Readme-long.txt\<close> in two slots, the flagged one with index 2 holding \<open>xt\<close>,
  the terminator \<open>0x0000\<close> and the padding \<open>0xFFFF\<close>, before the short entry
  \<open>README~1.TXT\<close>, whose checksum 107 the flagged slot carries: the long name is
  attached.
\<close>

theorem lfn_attached_iff_witness:
  "(let s = [66, 120, 0, 116, 0, 0, 0, 255, 255, 255, 255, 15, 0, 107, 255, 255, 255, 255, 255,
      255, 255, 255, 255, 255, 255, 255, 0, 0, 255, 255, 255, 255];
        f = [1, 82, 0, 101, 0, 97, 0, 100, 0, 109, 0, 15, 0, 107, 101, 0, 45, 0, 108, 0, 111, 0,
            110, 0, 103, 0, 0, 0, 46, 0, 116, 0];
        short = [82, 69, 65, 68, 77, 69, 126, 49, 84, 88, 84, 32, 0, 0, 0, 0, 0, 0, 0, 0, 0, 0, 0,
            0, 0, 0, 5, 0, 10, 0, 0, 0];
        r = getNextCompleteEntry (fat_cleared\<lparr>bits_per_fat_entry := 16\<rparr>) [s, f,
            short] (replicate 256 0)
    in is_lfn s \<and> lfn_flagged s \<and> is_lfn f \<and> \<not> lfn_flagged f \<and> is_short short \<and>
       list_all lfn_good [s, f] \<and> s ! 13 = lfn_checksum short \<and>
       map_option de_shortname (fst r) = Some [82, 69, 65, 68, 77, 69, 126, 49, 46, 84, 88,
           84] \<and>
       fst (snd r) = [] \<and>
       takeWhile (\<lambda>c. c \<noteq> 0) (snd (snd r)) =
         [82, 101, 97, 100, 109, 101, 45, 108, 111, 110, 103, 46, 116, 120, 116])"
proof -
  define s :: "u8 list" where "s = [66, 120, 0, 116, 0, 0, 0, 255, 255, 255, 255, 15, 0, 107, 255,
      255, 255, 255, 255, 255, 255, 255, 255, 255, 255, 255, 0, 0, 255, 255, 255, 255]"
  define f :: "u8 list" where "f = [1, 82, 0, 101, 0, 97, 0, 100, 0, 109, 0, 15, 0, 107, 101, 0,
      45, 0, 108, 0, 111, 0, 110, 0, 103, 0, 0, 0, 46, 0, 116, 0]"
  define short :: "u8 list" where "short = [82, 69, 65, 68, 77, 69, 126, 49, 84, 88, 84, 32, 0, 0,
      0, 0, 0, 0, 0, 0, 0, 0, 0, 0, 0, 0, 5, 0, 10, 0, 0, 0]"
  define fs where "fs = fat_cleared\<lparr>bits_per_fat_entry := 16\<rparr>"
  define r where "r = getNextCompleteEntry fs [s, f, short] (replicate 256 0)"
  have hs: "is_lfn s \<and> lfn_flagged s" unfolding s_def by code_simp
  have hf: "is_lfn f" unfolding f_def by code_simp
  have nf: "\<not> lfn_flagged f" unfolding f_def by code_simp
  have hshort: "is_short short" unfolding short_def by code_simp
  have good: "list_all lfn_good [s, f]" unfolding s_def f_def by code_simp
  have ck: "s ! 13 = lfn_checksum short" unfolding s_def short_def by code_simp
  have ha: "\<forall>e\<in>set []. is_deleted e \<or> is_lfn e" by simp
  have hb: "\<forall>e\<in>set [f]. is_deleted e \<or> (is_lfn e \<and> \<not> lfn_flagged e)"
    using hf nf by simp
  have len: "length (replicate 256 (0 :: u8)) = 256" by simp
  have cond: "list_all lfn_good (s # filter is_lfn [f]) \<and> s ! 13 = lfn_checksum short"
    using good ck hf by simp
  from lfn_attached_iff [OF ha hs hb hshort len, of fs "[]"] obtain de where
    run: "getNextCompleteEntry fs ([] @ s # [f] @ short # []) (replicate 256 0) =
            (Some de, [], de_longname de)"
    and sn: "de_shortname de = short_name short"
    and name: "if list_all lfn_good (s # filter is_lfn [f]) \<and> s ! 13 = lfn_checksum short
          then de_longname de =
                 foldl (\<lambda>l x. lfn_put x l) (replicate 256 0) (s # filter is_lfn [f])
          else de_longname de ! 0 = 0"
    by blast
  from name have "de_longname de =
      foldl (\<lambda>l x. lfn_put x l) (replicate 256 0) (s # filter is_lfn [f])"
    unfolding if_P [OF cond] .
  then have ln: "de_longname de = lfn_put f (lfn_put s (replicate 256 0))"
    using hf by simp
  have r: "r = (Some de, [], de_longname de)"
    unfolding r_def using run by simp
  have e1: "short_name short = [82, 69, 65, 68, 77, 69, 126, 49, 46, 84, 88, 84]"
    unfolding short_def by code_simp
  have e2: "takeWhile (\<lambda>c. c \<noteq> 0) (lfn_put f (lfn_put s (replicate 256 0))) =
      [82, 101, 97, 100, 109, 101, 45, 108, 111, 110, 103, 46, 116, 120, 116]"
    unfolding s_def f_def by code_simp
  have k1: "map_option de_shortname (fst r) = Some [82, 69, 65, 68, 77, 69, 126, 49, 46, 84, 88,
      84]"
    unfolding r using sn e1 by simp
  have k2: "fst (snd r) = []" unfolding r by simp
  have k3: "takeWhile (\<lambda>c. c \<noteq> 0) (snd (snd r)) =
      [82, 101, 97, 100, 109, 101, 45, 108, 111, 110, 103, 46, 116, 120, 116]"
    unfolding r using ln e2 by simp
  from hs hf nf hshort good ck k1 k2 k3 show ?thesis
    unfolding Let_def s_def [symmetric] f_def [symmetric] short_def [symmetric]
      fs_def [symmetric] r_def [symmetric]
    by blast
qed

text \<open>
  The claim wants the checksum byte of every slot to agree with the short entry. Here
  the name \<open>a-quite-long-file-name.txt\<close> fills two slots, all of its code units printable
  ASCII; the flagged slot carries the checksum 4 of \<open>A-QUIT~1.TXT\<close>, the second slot
  carries 0, and the long name is attached all the same.
\<close>

theorem lfn_second_checksum_counterexample:
  "(let s = [66, 102, 0, 105, 0, 108, 0, 101, 0, 45, 0, 15, 0, 4, 110, 0, 97, 0, 109, 0, 101, 0,
      46, 0, 116, 0, 0, 0, 120, 0, 116, 0];
        f = [1, 97, 0, 45, 0, 113, 0, 117, 0, 105, 0, 15, 0, 0, 116, 0, 101, 0, 45, 0, 108, 0, 111,
            0, 110, 0, 0, 0, 103, 0, 45, 0];
        short = [65, 45, 81, 85, 73, 84, 126, 49, 84, 88, 84, 32, 0, 0, 0, 0, 0, 0, 0, 0, 0, 0, 0,
            0, 0, 0, 5, 0, 10, 0, 0, 0]
    in is_lfn s \<and> is_lfn f \<and> is_short short \<and>
       list_all (\<lambda>c. 0x20 \<le> c \<and> c \<le> 0x7E) (lfn_code_units s @ lfn_code_units f) \<and>
       s ! 13 = lfn_checksum short \<and> f ! 13 \<noteq> lfn_checksum short \<and>
       takeWhile (\<lambda>c. c \<noteq> 0)
         (snd (snd (getNextCompleteEntry (fat_cleared\<lparr>bits_per_fat_entry := 16\<rparr>) [s,
             f, short] (replicate 256 0)))) =
         [97, 45, 113, 117, 105, 116, 101, 45, 108, 111, 110, 103, 45, 102, 105, 108, 101, 45, 110,
             97, 109, 101, 46, 116, 120, 116])"
  unfolding Let_def by code_simp

end
